theory Spec2Isabelle
  imports Main
begin

section \<open>Data model of the test runner (src/rktest.c)\<close>

text \<open>
  The two capacity limits are macros of rktest.h (its ``Config variables''), which
  rktest.c only uses; they are parameters of the model. All counters of the program are
  \<open>size_t\<close>; they count cells of arrays that exist in memory, so they never wrap, and
  they are natural numbers here.
\<close>

record config =
  RKTEST_MAX_NUM_TEST_SUITES :: nat
  RKTEST_MAX_NUM_TESTS_PER_SUITE :: nat

definition RKTEST_MAX_NUM_TESTS :: "config \<Rightarrow> nat" where
  "RKTEST_MAX_NUM_TESTS cfg =
     RKTEST_MAX_NUM_TEST_SUITES cfg * RKTEST_MAX_NUM_TESTS_PER_SUITE cfg"

text \<open>
  Modelled from the spec: the struct \<open>rktest_test_t\<close> is declared in rktest.h; the
  spec gives its three fields. A test function takes no argument and returns nothing.
  The flag \<open>g_current_test_failed\<close> is \<open>static\<close> in rktest.c, so all a test body can do
  to it is call \<open>rktest_fail_current_test\<close>: a body is a function of the rest of the
  program's state \<open>'w\<close> that says how many times it makes that call and what it leaves
  of \<open>'w\<close>. A null function pointer is \<open>None\<close>. A body that never returns is outside
  the model.
\<close>

record 'w rktest_test_t =
  suite_name :: string
  test_name :: string
  func :: "('w \<Rightarrow> nat \<times> 'w) option"

record 'w rktest_suite_t =
  name :: string
  tests :: "'w rktest_test_t list"
  num_tests :: nat

record 'w rktest_environment_t =
  test_suites :: "'w rktest_suite_t list"
  num_test_suites :: nat
  total_num_tests :: nat

record 'w rktest_report_t =
  num_passed_tests :: nat
  failed_tests :: "'w rktest_test_t list"
  num_failed_tests :: nat

text \<open>The file's two static variables, and the rest of the program's state.\<close>

record 'w globals =
  g_colors_enabled :: bool
  g_current_test_failed :: bool
  world :: 'w

datatype rktest_result_t = RKTEST_RESULT_OK | RKTEST_RESULT_ERROR

text \<open>
  Every way the C program leaves its normal course is a value: the two \<open>exit(1)\<close> of
  \<open>setup_test_env\<close> with what their diagnostic names (the limit's value, and the suite),
  and the accesses C leaves undefined: a read outside the \<open>rktest\<close> section, a null
  descriptor pointer, an index outside a fixed-capacity array.
\<close>

datatype error =
    Too_Many_Test_Suites nat
  | Too_Many_Tests_In_Suite string nat
  | Outside_Section
  | Null_Descriptor
  | Out_Of_Bounds

text \<open>
  A zero-initialised cell (\<open>{ 0 }\<close>): null pointers and a zero count. The null
  \<open>char\<close> pointers are written as empty strings; no function below reads the name of
  a cell at or beyond the count of its array.
\<close>

definition zero_test :: "'w rktest_test_t" where
  "zero_test = \<lparr>suite_name = [], test_name = [], func = None\<rparr>"

definition zero_suite :: "config \<Rightarrow> 'w rktest_suite_t" where
  "zero_suite cfg =
     \<lparr>name = [], tests = replicate (RKTEST_MAX_NUM_TESTS_PER_SUITE cfg) zero_test,
      num_tests = 0\<rparr>"

text \<open>A fixed-capacity array is a list as long as its capacity; an access checks its index.\<close>

definition array_read :: "'a list \<Rightarrow> nat \<Rightarrow> error + 'a" where
  "array_read xs i = (if i < length xs then Inr (xs ! i) else Inl Out_Of_Bounds)"

definition array_write :: "'a list \<Rightarrow> nat \<Rightarrow> 'a \<Rightarrow> error + 'a list" where
  "array_write xs i v = (if i < length xs then Inr (xs[i := v]) else Inl Out_Of_Bounds)"

section \<open>The registry: the rktest section\<close>

text \<open>
  The linker lays out \<open>test_data_begin\<close>, then the cells of \<open>rktest$data\<close> (a pointer to a
  descriptor, or null padding), then \<open>test_data_end\<close>. A section is the list of the cells
  strictly between the two markers. An iterator is the number of cells it lies after
  \<open>&test_data_begin\<close>: \<open>&test_data_begin\<close> is 0, the cell \<open>sec ! k\<close> is at \<open>k + 1\<close>, and
  \<open>&test_data_end\<close> is at \<open>length sec + 1\<close>. Both markers hold NULL.
\<close>

type_synonym 'w rktest_section = "'w rktest_test_t option list"

definition test_data_begin :: nat where
  "test_data_begin = 0"

definition test_data_end :: "'w rktest_section \<Rightarrow> nat" where
  "test_data_end sec = Suc (length sec)"

definition read_cell :: "'w rktest_section \<Rightarrow> nat \<Rightarrow> error + 'w rktest_test_t option" where
  "read_cell sec it =
     (if it = test_data_begin \<or> it = test_data_end sec then Inr None
      else if it < test_data_end sec then Inr (sec ! (it - 1))
      else Inl Outside_Section)"

function skip_until_next_test :: "'w rktest_section \<Rightarrow> nat \<Rightarrow> error + nat" where
  "skip_until_next_test sec it =
     (let it' = it + 1 in
      if it' = test_data_end sec then Inr it'
      else (case read_cell sec it' of
              Inl e \<Rightarrow> Inl e
            | Inr None \<Rightarrow> skip_until_next_test sec it'
            | Inr (Some t) \<Rightarrow> Inr it'))"
  by pat_completeness auto
termination
  by (relation "measure (\<lambda>(sec, it). test_data_end sec - it)")
     (auto simp: read_cell_def test_data_end_def test_data_begin_def split: if_splits)

declare skip_until_next_test.simps [simp del]

section \<open>The environment builder\<close>

function find_suite_from ::
  "'w rktest_suite_t list \<Rightarrow> nat \<Rightarrow> string \<Rightarrow> nat \<Rightarrow> error + nat option" where
  "find_suite_from suites num_suites sname i =
     (if i = num_suites then Inr None
      else (case array_read suites i of
              Inl e \<Rightarrow> Inl e
            | Inr suite \<Rightarrow>
                if name suite = sname then Inr (Some i)
                else find_suite_from suites num_suites sname (i + 1)))"
  by pat_completeness auto
termination
  by (relation "measure (\<lambda>(suites, num_suites, sname, i). length suites - i)")
     (auto simp: array_read_def split: if_splits)

declare find_suite_from.simps [simp del]

text \<open>
  The \<open>foreach\<close> of \<open>find_suite_with_name\<close> walks \<open>&suites[0]\<close> to \<open>&suites[num_suites]\<close>;
  the suite it returns a pointer to is given by its index, NULL by \<open>None\<close>.
\<close>

definition find_suite_with_name ::
  "'w rktest_suite_t list \<Rightarrow> nat \<Rightarrow> string \<Rightarrow> error + nat option" where
  "find_suite_with_name suites num_suites sname = find_suite_from suites num_suites sname 0"

definition add_new_suite ::
  "config \<Rightarrow> 'w rktest_environment_t \<Rightarrow> string \<Rightarrow> error + nat \<times> 'w rktest_environment_t" where
  "add_new_suite cfg env sname =
     (let i = num_test_suites env in
      case array_write (test_suites env) i
             \<lparr>name = sname,
              tests = replicate (RKTEST_MAX_NUM_TESTS_PER_SUITE cfg) zero_test,
              num_tests = 0\<rparr> of
        Inl e \<Rightarrow> Inl e
      | Inr suites' \<Rightarrow> Inr (i, env\<lparr>test_suites := suites', num_test_suites := i + 1\<rparr>))"

definition find_or_add_suite ::
  "config \<Rightarrow> 'w rktest_environment_t \<Rightarrow> string \<Rightarrow> error + nat \<times> 'w rktest_environment_t" where
  "find_or_add_suite cfg env sname =
     (case find_suite_with_name (test_suites env) (num_test_suites env) sname of
        Inl e \<Rightarrow> Inl e
      | Inr (Some i) \<Rightarrow> Inr (i, env)
      | Inr None \<Rightarrow> add_new_suite cfg env sname)"

text \<open>The body of the loop of \<open>setup_test_env\<close>, for the descriptor \<open>test\<close> that \<open>*it\<close> points to.\<close>

definition setup_test_env_body ::
  "config \<Rightarrow> 'w rktest_environment_t \<Rightarrow> 'w rktest_test_t \<Rightarrow> error + 'w rktest_environment_t" where
  "setup_test_env_body cfg env test =
     (if num_test_suites env = RKTEST_MAX_NUM_TEST_SUITES cfg
      then Inl (Too_Many_Test_Suites (RKTEST_MAX_NUM_TEST_SUITES cfg))
      else (case find_or_add_suite cfg env (suite_name test) of
              Inl e \<Rightarrow> Inl e
            | Inr (i, env1) \<Rightarrow>
               (case array_read (test_suites env1) i of
                  Inl e \<Rightarrow> Inl e
                | Inr suite \<Rightarrow>
                    if num_tests suite = RKTEST_MAX_NUM_TESTS_PER_SUITE cfg
                    then Inl (Too_Many_Tests_In_Suite (name suite)
                                (RKTEST_MAX_NUM_TESTS_PER_SUITE cfg))
                    else (case array_write (tests suite) (num_tests suite) test of
                            Inl e \<Rightarrow> Inl e
                          | Inr tests' \<Rightarrow>
                              Inr (env1\<lparr>total_num_tests := total_num_tests env1 + 1,
                                        test_suites := (test_suites env1)
                                          [i := suite\<lparr>tests := tests',
                                                      num_tests := num_tests suite + 1\<rparr>]\<rparr>)))))"

text \<open>
  The loop of \<open>setup_test_env\<close>, from the iterator \<open>it\<close> on. A null \<open>*it\<close> would be
  dereferenced at \<open>test->suite_name\<close>, after the test of the suite limit.
\<close>

function setup_test_env_loop ::
  "config \<Rightarrow> 'w rktest_section \<Rightarrow> nat \<Rightarrow> 'w rktest_environment_t \<Rightarrow> error + 'w rktest_environment_t" where
  "setup_test_env_loop cfg sec it env =
     (if it = test_data_end sec then Inr env
      else (case read_cell sec it of
              Inl e \<Rightarrow> Inl e
            | Inr None \<Rightarrow>
                if num_test_suites env = RKTEST_MAX_NUM_TEST_SUITES cfg
                then Inl (Too_Many_Test_Suites (RKTEST_MAX_NUM_TEST_SUITES cfg))
                else Inl Null_Descriptor
            | Inr (Some test) \<Rightarrow>
               (case setup_test_env_body cfg env test of
                  Inl e \<Rightarrow> Inl e
                | Inr env' \<Rightarrow>
                   (case skip_until_next_test sec it of
                      Inl e \<Rightarrow> Inl e
                    | Inr it' \<Rightarrow> setup_test_env_loop cfg sec it' env'))))"
  by pat_completeness auto

lemma skip_until_next_test_advances:
  "skip_until_next_test sec it = Inr it' \<Longrightarrow> it < it'"
proof (induction sec it rule: skip_until_next_test.induct)
  case (1 sec it)
  show ?case
  proof (cases "it + 1 = test_data_end sec")
    case True
    with "1.prems" show ?thesis
      by (simp add: skip_until_next_test.simps[of sec it])
  next
    case False
    show ?thesis
    proof (cases "read_cell sec (it + 1)")
      case (Inl e)
      with False "1.prems" show ?thesis
        by (simp add: skip_until_next_test.simps[of sec it])
    next
      case (Inr c)
      show ?thesis
      proof (cases c)
        case None
        with False Inr "1.prems" have "skip_until_next_test sec (it + 1) = Inr it'"
          by (simp add: skip_until_next_test.simps[of sec it])
        from "1.IH"[OF refl False Inr None this] show ?thesis by simp
      next
        case (Some t)
        with False Inr "1.prems" show ?thesis
          by (simp add: skip_until_next_test.simps[of sec it])
      qed
    qed
  qed
qed

lemma skip_until_next_test_le_end:
  "skip_until_next_test sec it = Inr it' \<Longrightarrow> it < test_data_end sec \<Longrightarrow> it' \<le> test_data_end sec"
proof (induction sec it rule: skip_until_next_test.induct)
  case (1 sec it)
  show ?case
  proof (cases "it + 1 = test_data_end sec")
    case True
    with "1.prems" show ?thesis
      by (simp add: skip_until_next_test.simps[of sec it])
  next
    case False
    with "1.prems"(2) have lt: "it + 1 < test_data_end sec" by simp
    show ?thesis
    proof (cases "read_cell sec (it + 1)")
      case (Inl e)
      with False "1.prems" show ?thesis
        by (simp add: skip_until_next_test.simps[of sec it])
    next
      case (Inr c)
      show ?thesis
      proof (cases c)
        case None
        with False Inr "1.prems" have "skip_until_next_test sec (it + 1) = Inr it'"
          by (simp add: skip_until_next_test.simps[of sec it])
        from "1.IH"[OF refl False Inr None this lt] show ?thesis .
      next
        case (Some t)
        with False Inr "1.prems" lt show ?thesis
          by (simp add: skip_until_next_test.simps[of sec it])
      qed
    qed
  qed
qed

termination setup_test_env_loop
proof (relation "measure (\<lambda>(cfg, sec, it, env). test_data_end sec - it)")
  show "wf (measure (\<lambda>(cfg, sec, it, env). test_data_end sec - it))" by simp
next
  fix cfg :: config and sec :: "'w rktest_section" and it :: nat
    and env :: "'w rktest_environment_t" and x2 x2a test x2b it'
  assume ne: "it \<noteq> test_data_end sec"
    and rd: "read_cell sec it = Inr x2" "x2 = Some test"
    and sk: "skip_until_next_test sec it = Inr it'"
  from rd ne have lt: "it < test_data_end sec"
    by (auto simp: read_cell_def split: if_splits)
  from skip_until_next_test_advances[OF sk] skip_until_next_test_le_end[OF sk lt] lt
  show "((cfg, sec, it', x2b), (cfg, sec, it, env))
          \<in> measure (\<lambda>(cfg, sec, it, env). test_data_end sec - it)"
    by simp
qed

text \<open>\<open>malloc\<close> is taken to succeed, here and in \<open>run_all_tests\<close>.\<close>

definition setup_test_env :: "config \<Rightarrow> 'w rktest_section \<Rightarrow> error + 'w rktest_environment_t" where
  "setup_test_env cfg sec =
     (let env = \<lparr>test_suites = replicate (RKTEST_MAX_NUM_TEST_SUITES cfg) (zero_suite cfg),
                 num_test_suites = 0, total_num_tests = 0\<rparr>
      in case skip_until_next_test sec (test_data_begin + 1) of
           Inl e \<Rightarrow> Inl e
         | Inr it \<Rightarrow> setup_test_env_loop cfg sec it env)"

declare setup_test_env_loop.simps [simp del]

section \<open>The test executor and the report\<close>

definition rktest_fail_current_test :: "'w globals \<Rightarrow> 'w globals" where
  "rktest_fail_current_test g = g\<lparr>g_current_test_failed := True\<rparr>"

text \<open>
  \<open>test->func()\<close>: the body runs on the program's state, and each of its calls of
  \<open>rktest_fail_current_test\<close> runs on the file's globals.
\<close>

definition call_func :: "('w \<Rightarrow> nat \<times> 'w) \<Rightarrow> 'w globals \<Rightarrow> 'w globals" where
  "call_func f g =
     (case f (world g) of (k, w') \<Rightarrow> (rktest_fail_current_test ^^ k) (g\<lparr>world := w'\<rparr>))"

text \<open>
  \<open>initialize\<close>: \<open>win32\<close> is \<open>None\<close> where \<open>WIN32\<close> is not defined, and otherwise what
  \<open>enable_windows_virtual_terminal\<close> returned.
\<close>

definition initialize :: "rktest_result_t option \<Rightarrow> 'w globals \<Rightarrow> 'w globals" where
  "initialize win32 g =
     (let g1 = g\<lparr>g_colors_enabled := True\<rparr> in
      case win32 of
        None \<Rightarrow> g1
      | Some r \<Rightarrow> if r \<noteq> RKTEST_RESULT_OK then g1\<lparr>g_colors_enabled := False\<rparr> else g1)"

text \<open>The lines \<open>run_test\<close> logs change nothing of the state and are left out.\<close>

definition run_test :: "'w rktest_test_t \<Rightarrow> 'w globals \<Rightarrow> bool \<times> 'w globals" where
  "run_test test g =
     (let g1 = (case func test of None \<Rightarrow> g | Some f \<Rightarrow> call_func f g);
          test_passed = (\<not> g_current_test_failed g1);
          g2 = g1\<lparr>g_current_test_failed := False\<rparr>
      in (test_passed, g2))"

function run_suite_tests ::
  "'w rktest_suite_t \<Rightarrow> nat \<Rightarrow> 'w rktest_report_t \<Rightarrow> 'w globals
     \<Rightarrow> error + 'w rktest_report_t \<times> 'w globals" where
  "run_suite_tests suite i report g =
     (if i = num_tests suite then Inr (report, g)
      else (case array_read (tests suite) i of
              Inl e \<Rightarrow> Inl e
            | Inr test \<Rightarrow>
               (case run_test test g of
                  (test_passed, g') \<Rightarrow>
                    if test_passed
                    then run_suite_tests suite (i + 1)
                           (report\<lparr>num_passed_tests := num_passed_tests report + 1\<rparr>) g'
                    else (case array_write (failed_tests report) (num_failed_tests report) test of
                            Inl e \<Rightarrow> Inl e
                          | Inr failed' \<Rightarrow>
                              run_suite_tests suite (i + 1)
                                (report\<lparr>failed_tests := failed',
                                        num_failed_tests := num_failed_tests report + 1\<rparr>) g'))))"
  by pat_completeness auto
termination
  by (relation "measure (\<lambda>(suite, i, report, g). length (tests suite) - i)")
     (auto simp: array_read_def split: if_splits)

declare run_suite_tests.simps [simp del]

function run_suites_from ::
  "'w rktest_environment_t \<Rightarrow> nat \<Rightarrow> 'w rktest_report_t \<Rightarrow> 'w globals
     \<Rightarrow> error + 'w rktest_report_t \<times> 'w globals" where
  "run_suites_from env i report g =
     (if i = num_test_suites env then Inr (report, g)
      else (case array_read (test_suites env) i of
              Inl e \<Rightarrow> Inl e
            | Inr suite \<Rightarrow>
               (case run_suite_tests suite 0 report g of
                  Inl e \<Rightarrow> Inl e
                | Inr (report', g') \<Rightarrow> run_suites_from env (i + 1) report' g')))"
  by pat_completeness auto
termination
  by (relation "measure (\<lambda>(env, i, report, g). length (test_suites env) - i)")
     (auto simp: array_read_def split: if_splits)

declare run_suites_from.simps [simp del]

definition run_all_tests ::
  "config \<Rightarrow> 'w rktest_environment_t \<Rightarrow> 'w globals
     \<Rightarrow> error + 'w rktest_report_t \<times> 'w globals" where
  "run_all_tests cfg env g =
     run_suites_from env 0
       \<lparr>num_passed_tests = 0,
        failed_tests = replicate (RKTEST_MAX_NUM_TESTS cfg) zero_test,
        num_failed_tests = 0\<rparr> g"

text \<open>
  \<open>rktest_main\<close> returns \<open>tests_passed\<close>, a \<open>bool\<close> converted to \<open>int\<close>: 1 or 0. An
  \<open>exit(1)\<close> of the builder ends the program before \<open>run_all_tests\<close> is called.
\<close>

definition rktest_main ::
  "config \<Rightarrow> rktest_result_t option \<Rightarrow> 'w rktest_section \<Rightarrow> 'w globals
     \<Rightarrow> error + int \<times> 'w globals" where
  "rktest_main cfg win32 sec g =
     (let g0 = initialize win32 g in
      case setup_test_env cfg sec of
        Inl e \<Rightarrow> Inl e
      | Inr env \<Rightarrow>
         (case run_all_tests cfg env g0 of
            Inl e \<Rightarrow> Inl e
          | Inr (report, g1) \<Rightarrow>
              (let tests_passed = (num_failed_tests report = 0)
               in Inr (if tests_passed then 1 else 0, g1))))"

section \<open>Reading the data structures\<close>

text \<open>
  The cells of an array that its count covers; the descriptors of a section; the loop body
  of \<open>setup_test_env\<close> run over a list of descriptors; and what a sequence of calls of
  \<open>run_test\<close> returns and leaves.
\<close>

definition suite_tests :: "'w rktest_suite_t \<Rightarrow> 'w rktest_test_t list" where
  "suite_tests suite = take (num_tests suite) (tests suite)"

definition env_suites :: "'w rktest_environment_t \<Rightarrow> 'w rktest_suite_t list" where
  "env_suites env = take (num_test_suites env) (test_suites env)"

definition env_tests :: "'w rktest_environment_t \<Rightarrow> 'w rktest_test_t list" where
  "env_tests env = concat (map suite_tests (env_suites env))"

definition report_failed :: "'w rktest_report_t \<Rightarrow> 'w rktest_test_t list" where
  "report_failed report = take (num_failed_tests report) (failed_tests report)"

definition fail_calls :: "'w rktest_test_t \<Rightarrow> 'w globals \<Rightarrow> nat" where
  "fail_calls test g = (case func test of None \<Rightarrow> 0 | Some f \<Rightarrow> fst (f (world g)))"

fun outcomes :: "'w rktest_test_t list \<Rightarrow> 'w globals \<Rightarrow> bool list" where
  "outcomes [] g = []"
| "outcomes (t # ts) g = fst (run_test t g) # outcomes ts (snd (run_test t g))"

fun state_after :: "'w rktest_test_t list \<Rightarrow> 'w globals \<Rightarrow> 'w globals" where
  "state_after [] g = g"
| "state_after (t # ts) g = state_after ts (snd (run_test t g))"

definition failing :: "'a list \<Rightarrow> bool list \<Rightarrow> 'a list" where
  "failing ts oks = map fst (filter (\<lambda>(t, ok). \<not> ok) (zip ts oks))"

definition env_view :: "'w rktest_environment_t \<Rightarrow> (string \<times> 'w rktest_test_t list) list" where
  "env_view env = map (\<lambda>s. (name s, suite_tests s)) (env_suites env)"

fun group_insert ::
  "'w rktest_test_t \<Rightarrow> (string \<times> 'w rktest_test_t list) list
     \<Rightarrow> (string \<times> 'w rktest_test_t list) list" where
  "group_insert t [] = [(suite_name t, [t])]"
| "group_insert t ((n, ts) # gs) =
     (if n = suite_name t then (n, ts @ [t]) # gs else (n, ts) # group_insert t gs)"

definition wf_env :: "config \<Rightarrow> 'w rktest_environment_t \<Rightarrow> bool" where
  "wf_env cfg env \<longleftrightarrow>
     length (test_suites env) = RKTEST_MAX_NUM_TEST_SUITES cfg \<and>
     num_test_suites env \<le> RKTEST_MAX_NUM_TEST_SUITES cfg \<and>
     (\<forall>s \<in> set (env_suites env).
        length (tests s) = RKTEST_MAX_NUM_TESTS_PER_SUITE cfg \<and>
        num_tests s \<le> RKTEST_MAX_NUM_TESTS_PER_SUITE cfg) \<and>
     total_num_tests env = length (env_tests env)"

definition suite_of :: "(string \<times> 'a list) list \<Rightarrow> string \<Rightarrow> 'a list" where
  "suite_of gs n = (case map_of gs n of None \<Rightarrow> [] | Some ts \<Rightarrow> ts)"

fun descriptors :: "'w rktest_section \<Rightarrow> 'w rktest_test_t list" where
  "descriptors [] = []"
| "descriptors (None # cells) = descriptors cells"
| "descriptors (Some t # cells) = t # descriptors cells"

fun build ::
  "config \<Rightarrow> 'w rktest_test_t list \<Rightarrow> 'w rktest_environment_t
     \<Rightarrow> error + 'w rktest_environment_t" where
  "build cfg [] env = Inr env"
| "build cfg (t # ts) env =
     (case setup_test_env_body cfg env t of
        Inl e \<Rightarrow> Inl e
      | Inr env' \<Rightarrow> build cfg ts env')"

definition empty_env :: "config \<Rightarrow> 'w rktest_environment_t" where
  "empty_env cfg =
     \<lparr>test_suites = replicate (RKTEST_MAX_NUM_TEST_SUITES cfg) (zero_suite cfg),
      num_test_suites = 0, total_num_tests = 0\<rparr>"

text \<open>
  The state a program starts in (the initialisers of the two static variables), and the
  inputs the theorems below are evaluated at.
\<close>

definition initial_globals :: "'w \<Rightarrow> 'w globals" where
  "initial_globals w = \<lparr>g_colors_enabled = False, g_current_test_failed = False, world = w\<rparr>"

definition example_config :: config where
  "example_config = \<lparr>RKTEST_MAX_NUM_TEST_SUITES = 2, RKTEST_MAX_NUM_TESTS_PER_SUITE = 2\<rparr>"

definition example_test :: "string \<Rightarrow> string \<Rightarrow> nat \<Rightarrow> nat rktest_test_t" where
  "example_test s t k = \<lparr>suite_name = s, test_name = t, func = Some (\<lambda>w. (k, Suc w))\<rparr>"


definition example_section :: "nat rktest_section" where
  "example_section =
     [None, Some (example_test ''A'' ''t1'' 0), Some (example_test ''A'' ''t2'' 2),
      None, Some (example_test ''B'' ''t1'' 0)]"

definition run_summary ::
  "config \<Rightarrow> 'w rktest_section \<Rightarrow> 'w globals \<Rightarrow> error + nat \<times> nat \<times> (string \<times> string) list \<times> nat" where
  "run_summary cfg sec g =
     (case setup_test_env cfg sec of
        Inl e \<Rightarrow> Inl e
      | Inr env \<Rightarrow>
         (case run_all_tests cfg env g of
            Inl e \<Rightarrow> Inl e
          | Inr (report, g') \<Rightarrow>
              Inr (total_num_tests env, num_passed_tests report,
                   map (\<lambda>t. (suite_name t, test_name t)) (report_failed report),
                   num_failed_tests report)))"

definition three_suites :: config where
  "three_suites = \<lparr>RKTEST_MAX_NUM_TEST_SUITES = 3, RKTEST_MAX_NUM_TESTS_PER_SUITE = 2\<rparr>"

definition suite_listing :: "'w rktest_environment_t \<Rightarrow> (string \<times> string list) list" where
  "suite_listing env = map (\<lambda>s. (name s, map test_name (suite_tests s))) (env_suites env)"

definition built_listing ::
  "config \<Rightarrow> 'w rktest_section \<Rightarrow> error + (string \<times> string list) list \<times> nat" where
  "built_listing cfg sec =
     (case setup_test_env cfg sec of
        Inl e \<Rightarrow> Inl e
      | Inr env \<Rightarrow> Inr (suite_listing env, total_num_tests env))"

definition main_summary ::
  "config \<Rightarrow> rktest_result_t option \<Rightarrow> 'w rktest_section \<Rightarrow> 'w globals
     \<Rightarrow> error + int \<times> bool" where
  "main_summary cfg win32 sec g =
     (case rktest_main cfg win32 sec g of
        Inl e \<Rightarrow> Inl e
      | Inr (ret, g') \<Rightarrow> Inr (ret, g_current_test_failed g'))"

text \<open>
  The elements of a list, each once, in the order of their first occurrence; and the
  suites of a list of descriptors: the suite names in that order, each with its
  descriptors in theirs.
\<close>

definition first_seen :: "'a list \<Rightarrow> 'a list" where
  "first_seen xs = rev (remdups (rev xs))"

definition group_all :: "'w rktest_test_t list \<Rightarrow> (string \<times> 'w rktest_test_t list) list" where
  "group_all ts =
     map (\<lambda>n. (n, filter (\<lambda>t. suite_name t = n) ts)) (first_seen (map suite_name ts))"

section \<open>The executor's loops\<close>

lemma fail_funpow_flag:
  "g_current_test_failed ((rktest_fail_current_test ^^ k) g) = (g_current_test_failed g \<or> 0 < k)"
  by (induction k) (auto simp: rktest_fail_current_test_def)

lemma fail_funpow_world: "world ((rktest_fail_current_test ^^ k) g) = world g"
  by (induction k) (auto simp: rktest_fail_current_test_def)

lemma fail_funpow_colors: "g_colors_enabled ((rktest_fail_current_test ^^ k) g) = g_colors_enabled g"
  by (induction k) (auto simp: rktest_fail_current_test_def)

lemma fail_funpow_Suc:
  "(rktest_fail_current_test ^^ Suc k) g = rktest_fail_current_test g"
  by (induction k) (auto simp: rktest_fail_current_test_def)

lemma run_test_passed:
  "fst (run_test test g) = (\<not> g_current_test_failed g \<and> fail_calls test g = 0)"
  by (auto simp: run_test_def call_func_def fail_calls_def fail_funpow_flag Let_def
           split: option.splits prod.splits)

lemma run_test_flag: "\<not> g_current_test_failed (snd (run_test test g))"
  by (simp add: run_test_def Let_def)

lemma length_outcomes [simp]: "length (outcomes ts g) = length ts"
  by (induction ts arbitrary: g) auto

lemma outcomes_append:
  "outcomes (xs @ ys) g = outcomes xs g @ outcomes ys (state_after xs g)"
  by (induction xs arbitrary: g) auto

lemma state_after_append:
  "state_after (xs @ ys) g = state_after ys (state_after xs g)"
  by (induction xs arbitrary: g) auto

lemma state_after_flag:
  "\<not> g_current_test_failed g \<Longrightarrow> \<not> g_current_test_failed (state_after ts g)"
  by (induction ts arbitrary: g) (auto simp: run_test_flag)

lemma failing_Nil [simp]: "failing [] oks = []"
  by (simp add: failing_def)

lemma failing_Cons [simp]:
  "failing (t # ts) (ok # oks) = (if ok then failing ts oks else t # failing ts oks)"
  by (simp add: failing_def)

lemma failing_append:
  "length xs = length oks \<Longrightarrow> failing (xs @ ys) (oks @ oks') = failing xs oks @ failing ys oks'"
  by (simp add: failing_def)

lemma length_failing:
  "length ts = length oks \<Longrightarrow> length (failing ts oks) = length (filter Not oks)"
proof (induction ts arbitrary: oks)
  case Nil
  then show ?case by simp
next
  case (Cons t ts)
  then obtain ok oks' where "oks = ok # oks'" by (cases oks) auto
  with Cons show ?case by simp
qed

lemma filter_id_Not_length: "length (filter (\<lambda>ok. ok) oks) + length (filter Not oks) = length oks"
  by (induction oks) auto

lemma run_suite_tests_spec:
  assumes "i \<le> num_tests suite" "num_tests suite \<le> length (tests suite)"
    and "num_failed_tests report + (num_tests suite - i) \<le> length (failed_tests report)"
  shows "\<exists>report'.
           run_suite_tests suite i report g
             = Inr (report', state_after (drop i (suite_tests suite)) g) \<and>
           num_passed_tests report' = num_passed_tests report
             + length (filter (\<lambda>ok. ok) (outcomes (drop i (suite_tests suite)) g)) \<and>
           length (failed_tests report') = length (failed_tests report) \<and>
           report_failed report' = report_failed report
             @ failing (drop i (suite_tests suite)) (outcomes (drop i (suite_tests suite)) g) \<and>
           num_failed_tests report' = num_failed_tests report
             + length (filter Not (outcomes (drop i (suite_tests suite)) g))"
  using assms
proof (induction suite i report g rule: run_suite_tests.induct)
  case (1 suite i report g)
  show ?case
  proof (cases "i = num_tests suite")
    case True
    then show ?thesis
      by (simp add: run_suite_tests.simps[of suite "num_tests suite"] suite_tests_def)
  next
    case False
    with "1.prems" have lt: "i < num_tests suite" "i < length (tests suite)" by auto
    then have rd: "array_read (tests suite) i = Inr (tests suite ! i)"
      by (simp add: array_read_def)
    let ?t = "tests suite ! i"
    let ?rest = "drop (i + 1) (suite_tests suite)"
    have "i < length (suite_tests suite)"
      using lt by (simp add: suite_tests_def)
    from Cons_nth_drop_Suc[OF this] lt
    have dr: "drop i (suite_tests suite) = ?t # ?rest"
      by (simp add: suite_tests_def)
    obtain ok g' where rt: "run_test ?t g = (ok, g')" by (cases "run_test ?t g")
    show ?thesis
    proof (cases ok)
      case True
      let ?r = "report\<lparr>num_passed_tests := num_passed_tests report + 1\<rparr>"
      have "\<exists>report'. run_suite_tests suite (i + 1) ?r g'
             = Inr (report', state_after ?rest g') \<and>
           num_passed_tests report' = num_passed_tests ?r
             + length (filter (\<lambda>ok. ok) (outcomes ?rest g')) \<and>
           length (failed_tests report') = length (failed_tests ?r) \<and>
           report_failed report' = report_failed ?r @ failing ?rest (outcomes ?rest g') \<and>
           num_failed_tests report' = num_failed_tests ?r
             + length (filter Not (outcomes ?rest g'))"
        using "1.prems" lt True
        by (intro "1.IH"(1)[OF False rd rt[symmetric] True]) auto
      then obtain report' where r':
        "run_suite_tests suite (i + 1) ?r g' = Inr (report', state_after ?rest g')"
        "num_passed_tests report' = num_passed_tests report + 1 + length (filter (\<lambda>ok. ok) (outcomes ?rest g'))"
        "length (failed_tests report') = length (failed_tests report)"
        "report_failed report' = report_failed report @ failing ?rest (outcomes ?rest g')"
        "num_failed_tests report' = num_failed_tests report + length (filter Not (outcomes ?rest g'))"
        by (auto simp: report_failed_def)
      have "run_suite_tests suite i report g = Inr (report', state_after ?rest g')"
        using False rd rt True r'(1) by (simp add: run_suite_tests.simps[of suite i])
      with r' True show ?thesis
        by (simp add: dr rt)
    next
      case notok: False
      from "1.prems" lt have nf: "num_failed_tests report < length (failed_tests report)" by auto
      let ?f = "(failed_tests report)[num_failed_tests report := ?t]"
      have wr: "array_write (failed_tests report) (num_failed_tests report) ?t = Inr ?f"
        using nf by (simp add: array_write_def)
      let ?r = "report\<lparr>failed_tests := ?f, num_failed_tests := num_failed_tests report + 1\<rparr>"
      have rf: "report_failed ?r = report_failed report @ [?t]"
        using nf by (simp add: report_failed_def take_Suc_conv_app_nth)
      have "\<exists>report'. run_suite_tests suite (i + 1) ?r g'
             = Inr (report', state_after ?rest g') \<and>
           num_passed_tests report' = num_passed_tests ?r
             + length (filter (\<lambda>ok. ok) (outcomes ?rest g')) \<and>
           length (failed_tests report') = length (failed_tests ?r) \<and>
           report_failed report' = report_failed ?r @ failing ?rest (outcomes ?rest g') \<and>
           num_failed_tests report' = num_failed_tests ?r
             + length (filter Not (outcomes ?rest g'))"
        using "1.prems" lt notok
        by (intro "1.IH"(2)[OF False rd rt[symmetric] notok wr]) auto
      then obtain report' where r':
        "run_suite_tests suite (i + 1) ?r g' = Inr (report', state_after ?rest g')"
        "num_passed_tests report' = num_passed_tests report + length (filter (\<lambda>ok. ok) (outcomes ?rest g'))"
        "length (failed_tests report') = length (failed_tests report)"
        "report_failed report' = report_failed ?r @ failing ?rest (outcomes ?rest g')"
        "num_failed_tests report' = num_failed_tests report + 1 + length (filter Not (outcomes ?rest g'))"
        by auto
      have "run_suite_tests suite i report g = Inr (report', state_after ?rest g')"
        using False rd rt notok wr r'(1) by (simp add: run_suite_tests.simps[of suite i])
      with r' notok rf show ?thesis
        by (simp add: dr rt)
    qed
  qed
qed

lemma run_suites_from_spec:
  assumes "i \<le> num_test_suites env" "num_test_suites env \<le> length (test_suites env)"
    and "\<forall>s \<in> set (env_suites env). num_tests s \<le> length (tests s)"
    and "num_failed_tests report + length (concat (map suite_tests (drop i (env_suites env))))
           \<le> length (failed_tests report)"
  shows "\<exists>report'.
           run_suites_from env i report g
             = Inr (report', state_after (concat (map suite_tests (drop i (env_suites env)))) g) \<and>
           num_passed_tests report' = num_passed_tests report
             + length (filter (\<lambda>ok. ok) (outcomes (concat (map suite_tests (drop i (env_suites env)))) g)) \<and>
           length (failed_tests report') = length (failed_tests report) \<and>
           report_failed report' = report_failed report
             @ failing (concat (map suite_tests (drop i (env_suites env))))
                 (outcomes (concat (map suite_tests (drop i (env_suites env)))) g) \<and>
           num_failed_tests report' = num_failed_tests report
             + length (filter Not (outcomes (concat (map suite_tests (drop i (env_suites env)))) g))"
  using assms
proof (induction env i report g rule: run_suites_from.induct)
  case (1 env i report g)
  show ?case
  proof (cases "i = num_test_suites env")
    case True
    then show ?thesis
      by (simp add: run_suites_from.simps[of env "num_test_suites env"] env_suites_def)
  next
    case False
    with "1.prems" have lt: "i < num_test_suites env" "i < length (test_suites env)" by auto
    then have rd: "array_read (test_suites env) i = Inr (test_suites env ! i)"
      by (simp add: array_read_def)
    let ?s = "test_suites env ! i"
    let ?rest = "concat (map suite_tests (drop (i + 1) (env_suites env)))"
    have il: "i < length (env_suites env)"
      using lt by (simp add: env_suites_def)
    from Cons_nth_drop_Suc[OF this] lt
    have dr: "drop i (env_suites env) = ?s # drop (i + 1) (env_suites env)"
      by (simp add: env_suites_def)
    have "?s \<in> set (env_suites env)"
      using il lt by (metis env_suites_def nth_mem nth_take)
    with "1.prems"(3) have ws: "num_tests ?s \<le> length (tests ?s)" by blast
    have len: "length (suite_tests ?s) = num_tests ?s"
      using ws by (simp add: suite_tests_def)
    from "1.prems"(4) have cap: "num_failed_tests report + num_tests ?s + length ?rest
        \<le> length (failed_tests report)"
      by (simp add: dr len)
    then have "num_failed_tests report + (num_tests ?s - 0) \<le> length (failed_tests report)"
      by simp
    from run_suite_tests_spec[OF _ ws this, of g]
    obtain r1 where r1:
      "run_suite_tests ?s 0 report g = Inr (r1, state_after (suite_tests ?s) g)"
      "num_passed_tests r1 = num_passed_tests report
         + length (filter (\<lambda>ok. ok) (outcomes (suite_tests ?s) g))"
      "length (failed_tests r1) = length (failed_tests report)"
      "report_failed r1 = report_failed report
         @ failing (suite_tests ?s) (outcomes (suite_tests ?s) g)"
      "num_failed_tests r1 = num_failed_tests report
         + length (filter Not (outcomes (suite_tests ?s) g))"
      by auto
    let ?g1 = "state_after (suite_tests ?s) g"
    have "length (filter Not (outcomes (suite_tests ?s) g)) \<le> num_tests ?s"
      using length_filter_le[of Not "outcomes (suite_tests ?s) g"] by (simp add: len)
    with cap r1 have cap1: "num_failed_tests r1 + length ?rest \<le> length (failed_tests r1)"
      by simp
    have "\<exists>report'.
           run_suites_from env (i + 1) r1 ?g1 = Inr (report', state_after ?rest ?g1) \<and>
           num_passed_tests report' = num_passed_tests r1
             + length (filter (\<lambda>ok. ok) (outcomes ?rest ?g1)) \<and>
           length (failed_tests report') = length (failed_tests r1) \<and>
           report_failed report' = report_failed r1 @ failing ?rest (outcomes ?rest ?g1) \<and>
           num_failed_tests report' = num_failed_tests r1
             + length (filter Not (outcomes ?rest ?g1))"
      using "1.prems" lt cap1
      by (intro "1.IH"[OF False rd r1(1) refl]) auto
    then obtain report' where r':
      "run_suites_from env (i + 1) r1 ?g1 = Inr (report', state_after ?rest ?g1)"
      "num_passed_tests report' = num_passed_tests r1
             + length (filter (\<lambda>ok. ok) (outcomes ?rest ?g1))"
      "length (failed_tests report') = length (failed_tests r1)"
      "report_failed report' = report_failed r1 @ failing ?rest (outcomes ?rest ?g1)"
      "num_failed_tests report' = num_failed_tests r1
             + length (filter Not (outcomes ?rest ?g1))"
      by auto
    have "run_suites_from env i report g = Inr (report', state_after ?rest ?g1)"
      using False rd r1(1) r'(1) by (simp add: run_suites_from.simps[of env i])
    with r' r1 show ?thesis
      by (simp add: dr outcomes_append state_after_append failing_append)
  qed
qed

section \<open>The builder's loops\<close>

lemma find_suite_from_spec:
  assumes "i \<le> n" "n \<le> length suites"
  shows "(find_suite_from suites n sname i = Inr None \<and>
            (\<forall>k. i \<le> k \<and> k < n \<longrightarrow> name (suites ! k) \<noteq> sname)) \<or>
         (\<exists>j. find_suite_from suites n sname i = Inr (Some j) \<and> i \<le> j \<and> j < n \<and>
              name (suites ! j) = sname \<and>
              (\<forall>k. i \<le> k \<and> k < j \<longrightarrow> name (suites ! k) \<noteq> sname))"
  using assms
proof (induction suites n sname i rule: find_suite_from.induct)
  case (1 suites n sname i)
  show ?case
  proof (cases "i = n")
    case True
    then show ?thesis
      by (auto simp: find_suite_from.simps[of suites n sname n])
  next
    case False
    with "1.prems" have lt: "i < n" "i < length suites" by auto
    then have rd: "array_read suites i = Inr (suites ! i)"
      by (simp add: array_read_def)
    show ?thesis
    proof (cases "name (suites ! i) = sname")
      case True
      with False rd lt show ?thesis
        by (auto simp: find_suite_from.simps[of suites n sname i])
    next
      case ne: False
      have eq: "find_suite_from suites n sname i = find_suite_from suites n sname (i + 1)"
        using False rd ne by (simp add: find_suite_from.simps[of suites n sname i])
      have step: "\<And>k. i \<le> k \<Longrightarrow> k = i \<or> i + 1 \<le> k" by auto
      from "1.IH"[OF False rd ne] lt "1.prems"
      have "(find_suite_from suites n sname (i + 1) = Inr None \<and>
              (\<forall>k. i + 1 \<le> k \<and> k < n \<longrightarrow> name (suites ! k) \<noteq> sname)) \<or>
            (\<exists>j. find_suite_from suites n sname (i + 1) = Inr (Some j) \<and> i + 1 \<le> j \<and> j < n \<and>
              name (suites ! j) = sname \<and>
              (\<forall>k. i + 1 \<le> k \<and> k < j \<longrightarrow> name (suites ! k) \<noteq> sname))"
        by simp
      then show ?thesis
      proof
        assume a: "find_suite_from suites n sname (i + 1) = Inr None \<and>
              (\<forall>k. i + 1 \<le> k \<and> k < n \<longrightarrow> name (suites ! k) \<noteq> sname)"
        then have "\<forall>k. i \<le> k \<and> k < n \<longrightarrow> name (suites ! k) \<noteq> sname"
          using ne step by blast
        with a eq show ?thesis by simp
      next
        assume "\<exists>j. find_suite_from suites n sname (i + 1) = Inr (Some j) \<and> i + 1 \<le> j \<and> j < n \<and>
              name (suites ! j) = sname \<and>
              (\<forall>k. i + 1 \<le> k \<and> k < j \<longrightarrow> name (suites ! k) \<noteq> sname)"
        then obtain j where j: "find_suite_from suites n sname (i + 1) = Inr (Some j)"
          "i + 1 \<le> j" "j < n" "name (suites ! j) = sname"
          "\<forall>k. i + 1 \<le> k \<and> k < j \<longrightarrow> name (suites ! k) \<noteq> sname"
          by blast
        have "\<forall>k. i \<le> k \<and> k < j \<longrightarrow> name (suites ! k) \<noteq> sname"
          using ne step j(5) by blast
        with j eq show ?thesis by auto
      qed
    qed
  qed
qed

lemma group_insert_new:
  "suite_name t \<notin> fst ` set gs \<Longrightarrow> group_insert t gs = gs @ [(suite_name t, [t])]"
  by (induction gs) auto

lemma group_insert_at:
  "j < length gs \<Longrightarrow> fst (gs ! j) = suite_name t \<Longrightarrow>
   (\<forall>k < j. fst (gs ! k) \<noteq> suite_name t) \<Longrightarrow>
   group_insert t gs = gs[j := (fst (gs ! j), snd (gs ! j) @ [t])]"
proof (induction gs arbitrary: j)
  case Nil
  then show ?case by simp
next
  case (Cons g gs)
  obtain n ts where g: "g = (n, ts)" by (cases g)
  show ?case
  proof (cases j)
    case 0
    with Cons.prems g show ?thesis by simp
  next
    case (Suc j')
    with Cons.prems have "fst ((g # gs) ! 0) \<noteq> suite_name t" by blast
    then have ne: "n \<noteq> suite_name t" by (simp add: g)
    have "\<forall>k < j'. fst (gs ! k) \<noteq> suite_name t"
      using Cons.prems(3) Suc by auto
    with Cons.IH[of j'] Cons.prems Suc
    have "group_insert t gs = gs[j' := (fst (gs ! j'), snd (gs ! j') @ [t])]" by simp
    with ne g Suc show ?thesis by simp
  qed
qed

lemma length_concat_update:
  "j < length xs \<Longrightarrow>
   length (concat (map f (xs[j := y]))) + length (f (xs ! j))
     = length (concat (map f xs)) + length (f y)"
proof (induction xs arbitrary: j)
  case Nil
  then show ?case by simp
next
  case (Cons x xs)
  then show ?case
    by (cases j) (auto simp: add.assoc)
qed

lemma map_of_first:
  "j < length gs \<Longrightarrow> fst (gs ! j) = n \<Longrightarrow> (\<forall>k < j. fst (gs ! k) \<noteq> n) \<Longrightarrow>
   map_of gs n = Some (snd (gs ! j))"
proof (induction gs arbitrary: j)
  case Nil
  then show ?case by simp
next
  case (Cons g gs)
  show ?case
  proof (cases j)
    case 0
    with Cons.prems show ?thesis by (cases g) auto
  next
    case (Suc j')
    with Cons.prems have "fst ((g # gs) ! 0) \<noteq> n" by blast
    then have ne: "fst g \<noteq> n" by simp
    have "\<forall>k < j'. fst (gs ! k) \<noteq> n"
      using Cons.prems(3) Suc by auto
    with Cons.IH[of j'] Cons.prems Suc
    have "map_of gs n = Some (snd (gs ! j'))" by simp
    with ne Suc show ?thesis by (cases g) auto
  qed
qed

lemma env_view_length [simp]: "length (env_view env) = length (env_suites env)"
  by (simp add: env_view_def)

lemma env_view_nth:
  "k < length (env_suites env) \<Longrightarrow>
   env_view env ! k = (name (env_suites env ! k), suite_tests (env_suites env ! k))"
  by (simp add: env_view_def)

lemma env_tests_view: "env_tests env = concat (map snd (env_view env))"
  by (simp add: env_tests_def env_view_def comp_def)

lemma setup_test_env_body_full_env:
  "num_test_suites env = RKTEST_MAX_NUM_TEST_SUITES cfg \<Longrightarrow>
   setup_test_env_body cfg env t = Inl (Too_Many_Test_Suites (RKTEST_MAX_NUM_TEST_SUITES cfg))"
  by (simp add: setup_test_env_body_def)

lemma setup_test_env_body_spec:
  assumes wf: "wf_env cfg env"
    and nfull: "num_test_suites env \<noteq> RKTEST_MAX_NUM_TEST_SUITES cfg"
  shows "(length (suite_of (env_view env) (suite_name t)) = RKTEST_MAX_NUM_TESTS_PER_SUITE cfg \<and>
          setup_test_env_body cfg env t
            = Inl (Too_Many_Tests_In_Suite (suite_name t) (RKTEST_MAX_NUM_TESTS_PER_SUITE cfg))) \<or>
         (length (suite_of (env_view env) (suite_name t)) \<noteq> RKTEST_MAX_NUM_TESTS_PER_SUITE cfg \<and>
          (\<exists>env'. setup_test_env_body cfg env t = Inr env' \<and> wf_env cfg env' \<and>
                  env_view env' = group_insert t (env_view env)))"
proof -
  let ?n = "num_test_suites env"
  let ?S = "test_suites env"
  let ?P = "RKTEST_MAX_NUM_TESTS_PER_SUITE cfg"
  let ?sn = "suite_name t"
  from wf have len: "length ?S = RKTEST_MAX_NUM_TEST_SUITES cfg"
    and nle: "?n \<le> length ?S"
    and suites: "\<And>s. s \<in> set (env_suites env) \<Longrightarrow> length (tests s) = ?P \<and> num_tests s \<le> ?P"
    and tot: "total_num_tests env = length (env_tests env)"
    by (auto simp: wf_env_def)
  from nle nfull len have nlt: "?n < length ?S" by simp
  have les: "length (env_suites env) = ?n"
    using nle by (simp add: env_suites_def)
  have nth_es: "\<And>k. k < ?n \<Longrightarrow> env_suites env ! k = ?S ! k"
    by (simp add: env_suites_def)
  from find_suite_from_spec[OF le0 nle, of ?sn]
  consider
    (absent) "find_suite_with_name ?S ?n ?sn = Inr None"
       "\<forall>k < ?n. name (?S ! k) \<noteq> ?sn"
  | (present) j where "find_suite_with_name ?S ?n ?sn = Inr (Some j)" "j < ?n"
       "name (?S ! j) = ?sn" "\<forall>k < j. name (?S ! k) \<noteq> ?sn"
    by (auto simp: find_suite_with_name_def)
  then show ?thesis
  proof cases
    case absent
    have notin: "?sn \<notin> fst ` set (env_view env)"
    proof
      assume "?sn \<in> fst ` set (env_view env)"
      then obtain g where "g \<in> set (env_view env)" "fst g = ?sn" by auto
      then obtain k where "k < length (env_view env)" "env_view env ! k = g"
        by (auto simp: in_set_conv_nth)
      with \<open>fst g = ?sn\<close> absent(2) les show False
        by (auto simp: env_view_nth nth_es)
    qed
    then have "map_of (env_view env) ?sn = None"
      by (simp add: map_of_eq_None_iff)
    then have cur: "suite_of (env_view env) ?sn = []"
      by (simp add: suite_of_def)
    let ?new = "\<lparr>name = ?sn, tests = replicate ?P (zero_test :: 'a rktest_test_t), num_tests = 0\<rparr>"
    let ?env1 = "env\<lparr>test_suites := ?S[?n := ?new], num_test_suites := ?n + 1\<rparr>"
    have add: "find_or_add_suite cfg env ?sn = Inr (?n, ?env1)"
      using absent(1) nlt
      by (simp add: find_or_add_suite_def add_new_suite_def array_write_def Let_def)
    have rd: "array_read (test_suites ?env1) ?n = Inr ?new"
      using nlt by (simp add: array_read_def)
    show ?thesis
    proof (cases "?P = 0")
      case True
      with add rd nfull cur show ?thesis
        by (simp add: setup_test_env_body_def)
    next
      case False
      define new' :: "'a rktest_suite_t" where
        "new' = \<lparr>name = ?sn, tests = (replicate ?P zero_test)[0 := t], num_tests = 1\<rparr>"
      define env' where
        "env' = env\<lparr>test_suites := ?S[?n := new'], num_test_suites := ?n + 1,
                      total_num_tests := total_num_tests env + 1\<rparr>"
      have body: "setup_test_env_body cfg env t = Inr env'"
        using add rd nfull False
        by (simp add: setup_test_env_body_def array_write_def env'_def new'_def)
      have es': "env_suites env' = env_suites env @ [new']"
        using nlt by (simp add: env_suites_def take_Suc_conv_app_nth env'_def)
      have st: "suite_tests new' = [t]"
        using False by (cases ?P) (simp_all add: suite_tests_def new'_def)
      have view': "env_view env' = env_view env @ [(?sn, [t])]"
        by (simp add: env_view_def es' st) (simp add: new'_def)
      have "wf_env cfg env'"
        unfolding wf_env_def
      proof (intro conjI ballI)
        show "length (test_suites env') = RKTEST_MAX_NUM_TEST_SUITES cfg"
          using len by (simp add: env'_def)
        show "num_test_suites env' \<le> RKTEST_MAX_NUM_TEST_SUITES cfg"
          using nlt len by (simp add: env'_def)
        have "total_num_tests env' = total_num_tests env + 1"
          by (simp add: env'_def)
        then show "total_num_tests env' = length (env_tests env')"
          using tot by (simp add: env_tests_view view')
      next
        fix s assume "s \<in> set (env_suites env')"
        then have s: "s \<in> set (env_suites env) \<or> s = new'"
          by (auto simp: es')
        from s suites False show "length (tests s) = ?P"
          by (auto simp: new'_def)
        from s suites False show "num_tests s \<le> ?P"
          by (auto simp: new'_def)
      qed
      moreover have "env_view env' = group_insert t (env_view env)"
        using view' group_insert_new[OF notin] by simp
      ultimately show ?thesis
        using body cur False by auto
    qed
  next
    case present
    let ?s = "?S ! j"
    let ?m = "num_tests ?s"
    from present(2) nle have jl: "j < length ?S" by simp
    have mem: "?s \<in> set (env_suites env)"
      using present(2) les nth_es[OF present(2)] by (metis nth_mem)
    from suites[OF mem] have lt: "length (tests ?s) = ?P" and ml: "?m \<le> ?P" by auto
    have find: "find_or_add_suite cfg env ?sn = Inr (j, env)"
      using present(1) by (simp add: find_or_add_suite_def)
    have rd: "array_read ?S j = Inr ?s"
      using jl by (simp add: array_read_def)
    have jv: "j < length (env_view env)"
      using present(2) les by simp
    have vj: "env_view env ! j = (?sn, suite_tests ?s)"
      using present(2,3) les by (simp add: env_view_nth nth_es)
    have first: "\<forall>k < j. fst (env_view env ! k) \<noteq> ?sn"
      using present(2,4) les by (auto simp: env_view_nth nth_es)
    have "map_of (env_view env) ?sn = Some (snd (env_view env ! j))"
      using vj first by (intro map_of_first[OF jv]) auto
    then have cur: "suite_of (env_view env) ?sn = suite_tests ?s"
      by (simp add: suite_of_def vj)
    have lcur: "length (suite_tests ?s) = ?m"
      using ml lt by (simp add: suite_tests_def)
    show ?thesis
    proof (cases "?m = ?P")
      case True
      with find rd nfull present(3) cur lcur show ?thesis
        by (simp add: setup_test_env_body_def)
    next
      case False
      with ml lt have mlt: "?m < length (tests ?s)" by simp
      define s' where "s' = ?s\<lparr>tests := (tests ?s)[?m := t], num_tests := ?m + 1\<rparr>"
      define env' where
        "env' = env\<lparr>total_num_tests := total_num_tests env + 1, test_suites := ?S[j := s']\<rparr>"
      have body: "setup_test_env_body cfg env t = Inr env'"
        using find rd nfull False mlt
        by (simp add: setup_test_env_body_def array_write_def env'_def s'_def)
      have es': "env_suites env' = (env_suites env)[j := s']"
        by (simp add: env_suites_def take_update_swap env'_def)
      have st: "suite_tests s' = suite_tests ?s @ [t]"
        using mlt by (simp add: suite_tests_def take_Suc_conv_app_nth s'_def)
      have ns': "name s' = ?sn"
        using present(3) by (simp add: s'_def)
      have view': "env_view env' = (env_view env)[j := (?sn, suite_tests ?s @ [t])]"
        by (simp add: env_view_def es' st ns' map_update)
      have "length (concat (map snd ((env_view env)[j := (?sn, suite_tests ?s @ [t])])))
              + length (snd (env_view env ! j))
            = length (concat (map snd (env_view env))) + length (snd (?sn, suite_tests ?s @ [t]))"
        by (rule length_concat_update[OF jv])
      then have tot': "length (env_tests env') = length (env_tests env) + 1"
        by (simp add: env_tests_view view' vj)
      have "wf_env cfg env'"
        unfolding wf_env_def
      proof (intro conjI ballI)
        show "length (test_suites env') = RKTEST_MAX_NUM_TEST_SUITES cfg"
          using len by (simp add: env'_def)
        show "num_test_suites env' \<le> RKTEST_MAX_NUM_TEST_SUITES cfg"
          using nle len by (simp add: env'_def)
        have "total_num_tests env' = total_num_tests env + 1"
          by (simp add: env'_def)
        then show "total_num_tests env' = length (env_tests env')"
          using tot tot' by simp
      next
        fix s assume "s \<in> set (env_suites env')"
        then have s: "s \<in> set (env_suites env) \<or> s = s'"
          using set_update_subset_insert[of "env_suites env" j s'] by (auto simp: es')
        from s suites[OF mem] suites show "length (tests s) = ?P"
          by (auto simp: s'_def)
        from s suites[OF mem] suites False show "num_tests s \<le> ?P"
          by (auto simp: s'_def)
      qed
      moreover have "env_view env' = group_insert t (env_view env)"
        using view' group_insert_at[OF jv _ first] vj by simp
      ultimately show ?thesis
        using body cur lcur False by auto
    qed
  qed
qed

lemma read_cell_inside:
  "0 < it \<Longrightarrow> it < test_data_end sec \<Longrightarrow> read_cell sec it = Inr (sec ! (it - 1))"
  by (simp add: read_cell_def test_data_begin_def)

lemma skip_until_next_test_spec:
  assumes "it < test_data_end sec"
  shows "\<exists>it'. skip_until_next_test sec it = Inr it' \<and> it < it' \<and> it' \<le> test_data_end sec \<and>
           descriptors (drop it sec) = descriptors (drop (it' - 1) sec) \<and>
           (it' = test_data_end sec \<or> (\<exists>t. read_cell sec it' = Inr (Some t)))"
  using assms
proof (induction sec it rule: skip_until_next_test.induct)
  case (1 sec it)
  show ?case
  proof (cases "it + 1 = test_data_end sec")
    case True
    have "skip_until_next_test sec it = Inr (it + 1)"
      using True by (subst skip_until_next_test.simps) simp
    moreover have "test_data_end sec - 1 = it"
      using True by simp
    ultimately show ?thesis
      using True by simp
  next
    case False
    with "1.prems" have lt: "it + 1 < test_data_end sec" by simp
    then have il: "it < length sec" by (simp add: test_data_end_def)
    have rd: "read_cell sec (it + 1) = Inr (sec ! it)"
      using read_cell_inside[OF _ lt] by simp
    have dr: "drop it sec = sec ! it # drop (it + 1) sec"
      using Cons_nth_drop_Suc[OF il] by simp
    show ?thesis
    proof (cases "sec ! it")
      case None
      from "1.IH"[OF refl False rd None lt]
      obtain it' where it': "skip_until_next_test sec (it + 1) = Inr it'" "it + 1 < it'"
        "it' \<le> test_data_end sec"
        "descriptors (drop (it + 1) sec) = descriptors (drop (it' - 1) sec)"
        "it' = test_data_end sec \<or> (\<exists>t. read_cell sec it' = Inr (Some t))"
        by blast
      have "skip_until_next_test sec it = Inr it'"
        using False rd None it'(1) by (simp add: skip_until_next_test.simps[of sec it])
      moreover have "descriptors (drop it sec) = descriptors (drop (it' - 1) sec)"
        using it'(4) None by (simp add: dr)
      ultimately show ?thesis
        using it' by auto
    next
      case (Some t)
      have "skip_until_next_test sec it = Inr (it + 1)"
        using False rd Some by (simp add: skip_until_next_test.simps[of sec it])
      with lt rd Some show ?thesis by simp
    qed
  qed
qed

lemma setup_test_env_loop_build:
  assumes "0 < it" "it \<le> test_data_end sec"
    and "it = test_data_end sec \<or> (\<exists>t. read_cell sec it = Inr (Some t))"
  shows "setup_test_env_loop cfg sec it env = build cfg (descriptors (drop (it - 1) sec)) env"
  using assms
proof (induction cfg sec it env rule: setup_test_env_loop.induct)
  case (1 cfg sec it env)
  show ?case
  proof (cases "it = test_data_end sec")
    case True
    have "setup_test_env_loop cfg sec it env = Inr env"
      using True by (subst setup_test_env_loop.simps) simp
    then show ?thesis
      using True by (simp add: test_data_end_def)
  next
    case False
    with "1.prems" obtain t where rd: "read_cell sec it = Inr (Some t)" by blast
    from False "1.prems" have lt: "it < test_data_end sec" by simp
    then have il: "it - 1 < length sec" using "1.prems"(1) by (simp add: test_data_end_def)
    from rd read_cell_inside[OF "1.prems"(1) lt] have cell: "sec ! (it - 1) = Some t" by simp
    have "Suc (it - 1) = it" using "1.prems"(1) by simp
    with Cons_nth_drop_Suc[OF il] cell
    have "drop (it - 1) sec = Some t # drop it sec" by simp
    then have ds: "descriptors (drop (it - 1) sec) = t # descriptors (drop it sec)"
      by simp
    show ?thesis
    proof (cases "setup_test_env_body cfg env t")
      case (Inl e)
      with False rd ds show ?thesis
        by (simp add: setup_test_env_loop.simps[of cfg sec it])
    next
      case (Inr env')
      from skip_until_next_test_spec[OF lt]
      obtain it' where it': "skip_until_next_test sec it = Inr it'" "it < it'"
        "it' \<le> test_data_end sec"
        "descriptors (drop it sec) = descriptors (drop (it' - 1) sec)"
        "it' = test_data_end sec \<or> (\<exists>t. read_cell sec it' = Inr (Some t))"
        by blast
      have "setup_test_env_loop cfg sec it' env'
              = build cfg (descriptors (drop (it' - 1) sec)) env'"
        using it' by (intro "1.IH"[OF False rd refl Inr it'(1)]) auto
      with False rd Inr it' ds show ?thesis
        by (simp add: setup_test_env_loop.simps[of cfg sec it])
    qed
  qed
qed

lemma setup_test_env_Nil: "setup_test_env cfg [] = Inl Outside_Section"
  by (simp add: setup_test_env_def skip_until_next_test.simps[of "[]" "Suc 0"]
        test_data_begin_def test_data_end_def read_cell_def)

lemma setup_test_env_Cons:
  "setup_test_env cfg (c # cells) = build cfg (descriptors cells) (empty_env cfg)"
proof -
  have lt: "1 < test_data_end (c # cells)" by (simp add: test_data_end_def)
  from skip_until_next_test_spec[OF lt]
  obtain it' where it': "skip_until_next_test (c # cells) 1 = Inr it'" "1 < it'"
    "it' \<le> test_data_end (c # cells)"
    "descriptors (drop 1 (c # cells)) = descriptors (drop (it' - 1) (c # cells))"
    "it' = test_data_end (c # cells) \<or> (\<exists>t. read_cell (c # cells) it' = Inr (Some t))"
    by blast
  have "setup_test_env_loop cfg (c # cells) it' (empty_env cfg)
          = build cfg (descriptors (drop (it' - 1) (c # cells))) (empty_env cfg)"
    using it' by (intro setup_test_env_loop_build) auto
  with it' show ?thesis
    by (simp add: setup_test_env_def test_data_begin_def empty_env_def)
qed

lemma wf_env_empty: "wf_env cfg (empty_env cfg)"
  by (simp add: wf_env_def empty_env_def env_suites_def env_tests_def)

lemma env_view_empty: "env_view (empty_env cfg) = []"
  by (simp add: env_view_def empty_env_def env_suites_def)

lemma build_spec:
  "wf_env cfg env \<Longrightarrow> build cfg ts env = Inr env' \<Longrightarrow>
   wf_env cfg env' \<and> env_view env' = foldl (\<lambda>gs t. group_insert t gs) (env_view env) ts"
proof (induction ts arbitrary: env)
  case Nil
  then show ?case by simp
next
  case (Cons t ts)
  from Cons.prems(2) obtain env1 where b: "setup_test_env_body cfg env t = Inr env1"
    "build cfg ts env1 = Inr env'"
    by (auto split: sum.splits)
  from b(1) setup_test_env_body_full_env[of env cfg t]
  have "num_test_suites env \<noteq> RKTEST_MAX_NUM_TEST_SUITES cfg" by auto
  from setup_test_env_body_spec[OF Cons.prems(1) this, of t] b(1)
  have "wf_env cfg env1" "env_view env1 = group_insert t (env_view env)" by auto
  with Cons.IH[OF this(1) b(2)] show ?case by simp
qed

lemma build_error:
  "wf_env cfg env \<Longrightarrow> build cfg ts env = Inl e \<Longrightarrow>
   e = Too_Many_Test_Suites (RKTEST_MAX_NUM_TEST_SUITES cfg) \<or>
   (\<exists>n. e = Too_Many_Tests_In_Suite n (RKTEST_MAX_NUM_TESTS_PER_SUITE cfg))"
proof (induction ts arbitrary: env)
  case Nil
  then show ?case by simp
next
  case (Cons t ts)
  show ?case
  proof (cases "num_test_suites env = RKTEST_MAX_NUM_TEST_SUITES cfg")
    case True
    with Cons.prems(2) setup_test_env_body_full_env[OF True, of t] show ?thesis by simp
  next
    case False
    from setup_test_env_body_spec[OF Cons.prems(1) False, of t] Cons.prems(2) Cons.IH
    show ?thesis by (auto split: sum.splits)
  qed
qed

lemma setup_test_env_wf:
  assumes "setup_test_env cfg sec = Inr env"
  shows "wf_env cfg env"
proof (cases sec)
  case Nil
  with assms show ?thesis by (simp add: setup_test_env_Nil)
next
  case (Cons c cells)
  with assms have "build cfg (descriptors cells) (empty_env cfg) = Inr env"
    by (simp add: setup_test_env_Cons)
  from build_spec[OF wf_env_empty this] show ?thesis by simp
qed

lemma length_concat_bound:
  "(\<And>x. x \<in> set xs \<Longrightarrow> length (f x) \<le> p) \<Longrightarrow> length (concat (map f xs)) \<le> length xs * p"
proof (induction xs)
  case Nil
  then show ?case by simp
next
  case (Cons x xs)
  have "length (f x) \<le> p" using Cons.prems by simp
  moreover have "length (concat (map f xs)) \<le> length xs * p"
    using Cons by simp
  ultimately show ?case by simp
qed

lemma wf_env_total_bound:
  assumes "wf_env cfg env"
  shows "length (env_tests env) \<le> RKTEST_MAX_NUM_TESTS cfg"
proof -
  have "length (env_tests env) \<le> length (env_suites env) * RKTEST_MAX_NUM_TESTS_PER_SUITE cfg"
    unfolding env_tests_def
    using assms by (intro length_concat_bound) (auto simp: wf_env_def suite_tests_def)
  also have "length (env_suites env) \<le> RKTEST_MAX_NUM_TEST_SUITES cfg"
    using assms by (simp add: wf_env_def env_suites_def)
  finally show ?thesis
    by (simp add: RKTEST_MAX_NUM_TESTS_def)
qed

lemma run_all_tests_spec:
  assumes wf: "wf_env cfg env"
  shows "\<exists>report.
           run_all_tests cfg env g = Inr (report, state_after (env_tests env) g) \<and>
           num_passed_tests report = length (filter (\<lambda>ok. ok) (outcomes (env_tests env) g)) \<and>
           length (failed_tests report) = RKTEST_MAX_NUM_TESTS cfg \<and>
           report_failed report = failing (env_tests env) (outcomes (env_tests env) g) \<and>
           num_failed_tests report = length (filter Not (outcomes (env_tests env) g))"
proof -
  define r0 :: "'a rktest_report_t" where
    "r0 = \<lparr>num_passed_tests = 0,
           failed_tests = replicate (RKTEST_MAX_NUM_TESTS cfg) zero_test,
           num_failed_tests = 0\<rparr>"
  have r0: "num_passed_tests r0 = 0" "num_failed_tests r0 = 0"
    "length (failed_tests r0) = RKTEST_MAX_NUM_TESTS cfg" "report_failed r0 = []"
    by (simp_all add: r0_def report_failed_def)
  have a1: "num_test_suites env \<le> length (test_suites env)"
    using wf by (simp add: wf_env_def)
  have a2: "\<forall>s \<in> set (env_suites env). num_tests s \<le> length (tests s)"
    using wf by (simp add: wf_env_def)
  have a3: "num_failed_tests r0 + length (concat (map suite_tests (drop 0 (env_suites env))))
            \<le> length (failed_tests r0)"
    using wf_env_total_bound[OF wf] by (simp add: r0 env_tests_def)
  from run_suites_from_spec[OF le0 a1 a2 a3, of g]
  show ?thesis
    by (simp add: run_all_tests_def r0_def[symmetric] r0 env_tests_def)
qed

section \<open>The failure signal\<close>

lemma outcomes_nth:
  "k < length ts \<Longrightarrow> outcomes ts g ! k = fst (run_test (ts ! k) (state_after (take k ts) g))"
proof (induction ts arbitrary: k g)
  case Nil
  then show ?case by simp
next
  case (Cons t ts)
  then show ?case by (cases k) auto
qed


lemma failing_subset: "set (failing ts oks) \<subseteq> set ts"
  by (auto simp: failing_def dest: set_zip_leftD)



text \<open>
  C6: calling \<open>rktest_fail_current_test\<close> several times is the same as calling it once,
  and \<open>run_test\<close> reports a test passed exactly when the signal was clear when the test
  started and its body made no such call. So within an invocation that starts with the
  signal clear, the test is reported failed exactly when its body called at least once,
  however often, and a body that makes one call gets the result and the state of a body
  that makes any positive number of them.
\<close>

theorem mark_failed_is_boolean:
  assumes "\<not> g_current_test_failed g"
  shows "(rktest_fail_current_test ^^ Suc k) g = rktest_fail_current_test g \<and>
         fst (run_test test g) = (fail_calls test g = 0) \<and>
         (0 < fst (f (world g)) \<longrightarrow>
            run_test (test\<lparr>func := Some f\<rparr>) g
              = run_test (test\<lparr>func := Some (\<lambda>w. (1, snd (f w)))\<rparr>) g) \<and>
         (rktest_fail_current_test ^^ Suc k) g0 = rktest_fail_current_test g0 \<and>
         fst (run_test test g0) = (\<not> g_current_test_failed g0 \<and> fail_calls test g0 = 0)"
proof (intro conjI impI)
  show "(rktest_fail_current_test ^^ Suc k) g = rktest_fail_current_test g"
    by (rule fail_funpow_Suc)
  show "fst (run_test test g) = (fail_calls test g = 0)"
    using assms by (simp add: run_test_passed)
  show "(rktest_fail_current_test ^^ Suc k) g0 = rktest_fail_current_test g0"
    by (rule fail_funpow_Suc)
  show "fst (run_test test g0) = (\<not> g_current_test_failed g0 \<and> fail_calls test g0 = 0)"
    by (rule run_test_passed)
next
  assume pos: "0 < fst (f (world g))"
  obtain n w' where fw: "f (world g) = (n, w')" by (cases "f (world g)")
  with pos obtain j where j: "n = Suc j" by (cases n) auto
  have "call_func f g = rktest_fail_current_test (g\<lparr>world := w'\<rparr>)"
    using fail_funpow_Suc[of j "g\<lparr>world := w'\<rparr>"]
    by (simp add: call_func_def fw j)
  moreover have "call_func (\<lambda>w. (1, snd (f w))) g = rktest_fail_current_test (g\<lparr>world := w'\<rparr>)"
    by (simp add: call_func_def fw)
  ultimately show "run_test (test\<lparr>func := Some f\<rparr>) g
      = run_test (test\<lparr>func := Some (\<lambda>w. (1, snd (f w)))\<rparr>) g"
    by (simp add: run_test_def)
qed

theorem mark_failed_is_boolean_witness:
  "\<not> g_current_test_failed (initial_globals (0::nat)) \<and>
   (rktest_fail_current_test ^^ Suc 2) (initial_globals (0::nat))
      = rktest_fail_current_test (initial_globals 0) \<and>
   fst (run_test (example_test ''A'' ''t1'' 3) (initial_globals 0))
      = (fail_calls (example_test ''A'' ''t1'' 3) (initial_globals 0) = 0) \<and>
   fail_calls (example_test ''A'' ''t1'' 3) (initial_globals 0) = 3 \<and>
   run_test (example_test ''A'' ''t1'' 3\<lparr>func := Some (\<lambda>w. (3, Suc w))\<rparr>) (initial_globals 0)
      = run_test (example_test ''A'' ''t1'' 3\<lparr>func := Some (\<lambda>w. (1, snd (3::nat, Suc w)))\<rparr>)
          (initial_globals 0) \<and>
   fst (run_test (example_test ''A'' ''t1'' 3) (rktest_fail_current_test (initial_globals 0)))
      = (\<not> g_current_test_failed (rktest_fail_current_test (initial_globals (0::nat))) \<and>
         fail_calls (example_test ''A'' ''t1'' 3) (rktest_fail_current_test (initial_globals 0)) = 0)"
proof -
  have h: "\<not> g_current_test_failed (initial_globals (0::nat))"
    by (simp add: initial_globals_def)
  have pos: "0 < fst ((\<lambda>w. (3::nat, Suc w)) (world (initial_globals (0::nat))))"
    by simp
  have c: "fail_calls (example_test ''A'' ''t1'' 3) (initial_globals 0) = 3"
    by (simp add: fail_calls_def example_test_def)
  note t = mark_failed_is_boolean[OF h, of 2 "example_test ''A'' ''t1'' 3" "\<lambda>w. (3, Suc w)"
      "rktest_fail_current_test (initial_globals 0)"]
  from t pos have eq: "run_test (example_test ''A'' ''t1'' 3\<lparr>func := Some (\<lambda>w. (3, Suc w))\<rparr>)
        (initial_globals 0)
      = run_test (example_test ''A'' ''t1'' 3\<lparr>func := Some (\<lambda>w. (1, snd (3::nat, Suc w)))\<rparr>)
          (initial_globals 0)"
    by blast
  note t1 = t[THEN conjunct1] and t2 = t[THEN conjunct2, THEN conjunct1]
    and t5 = t[THEN conjunct2, THEN conjunct2, THEN conjunct2, THEN conjunct2]
  show ?thesis
    apply (intro conjI)
         apply (rule h)
        apply (rule t1)
       apply (rule t2)
      apply (rule c)
     apply (rule eq)
    apply (rule t5)
    done
qed

text \<open>
  A test whose body makes no call, started with the signal set (\<open>rktest_fail_current_test\<close>
  was called before the run), is reported failed.
\<close>

theorem mark_failed_is_boolean_counterexample:
  "fail_calls (example_test ''A'' ''t1'' 0) (rktest_fail_current_test (initial_globals 0)) = 0 \<and>
   \<not> fst (run_test (example_test ''A'' ''t1'' 0) (rktest_fail_current_test (initial_globals 0)))"
  by (simp add: run_test_passed fail_calls_def example_test_def rktest_fail_current_test_def
        initial_globals_def)

section \<open>Runs over a built environment\<close>

lemma initialize_flag [simp]:
  "g_current_test_failed (initialize win32 g) = g_current_test_failed g"
  by (simp add: initialize_def Let_def split: option.splits)

lemma rktest_main_Inr:
  assumes "rktest_main cfg win32 sec g = Inr (ret, g')"
  shows "\<exists>env report. setup_test_env cfg sec = Inr env \<and>
           run_all_tests cfg env (initialize win32 g) = Inr (report, g') \<and>
           ret = (if num_failed_tests report = 0 then 1 else 0)"
proof (cases "setup_test_env cfg sec")
  case (Inl e)
  with assms show ?thesis by (simp add: rktest_main_def)
next
  case (Inr env)
  show ?thesis
  proof (cases "run_all_tests cfg env (initialize win32 g)")
    case (Inl e)
    with Inr assms show ?thesis by (simp add: rktest_main_def)
  next
    case run: (Inr p)
    obtain report g1 where p: "p = (report, g1)" by (cases p)
    with Inr run assms show ?thesis
      by (simp add: rktest_main_def Let_def split: if_splits)
  qed
qed

lemma rktest_main_Inl:
  "(rktest_main cfg win32 sec g = Inl e) = (setup_test_env cfg sec = Inl e)"
proof (cases "setup_test_env cfg sec")
  case (Inl e')
  then show ?thesis by (simp add: rktest_main_def)
next
  case (Inr env)
  from run_all_tests_spec[OF setup_test_env_wf[OF Inr], of "initialize win32 g"]
  obtain report where "run_all_tests cfg env (initialize win32 g)
      = Inr (report, state_after (env_tests env) (initialize win32 g))"
    by blast
  with Inr show ?thesis by (simp add: rktest_main_def Let_def)
qed

lemma built_run:
  assumes "setup_test_env cfg sec = Inr env" and "run_all_tests cfg env g = Inr (report, g')"
  shows "g' = state_after (env_tests env) g"
    and "num_passed_tests report = length (filter (\<lambda>ok. ok) (outcomes (env_tests env) g))"
    and "length (failed_tests report) = RKTEST_MAX_NUM_TESTS cfg"
    and "report_failed report = failing (env_tests env) (outcomes (env_tests env) g)"
    and "num_failed_tests report = length (filter Not (outcomes (env_tests env) g))"
proof -
  from run_all_tests_spec[OF setup_test_env_wf[OF assms(1)], of g]
  obtain r where r: "run_all_tests cfg env g = Inr (r, state_after (env_tests env) g)"
    "num_passed_tests r = length (filter (\<lambda>ok. ok) (outcomes (env_tests env) g))"
    "length (failed_tests r) = RKTEST_MAX_NUM_TESTS cfg"
    "report_failed r = failing (env_tests env) (outcomes (env_tests env) g)"
    "num_failed_tests r = length (filter Not (outcomes (env_tests env) g))"
    by blast
  from r(1) assms(2) have eq: "r = report" "g' = state_after (env_tests env) g" by simp_all
  from eq(2) show "g' = state_after (env_tests env) g" .
  from r(2) eq(1)
  show "num_passed_tests report = length (filter (\<lambda>ok. ok) (outcomes (env_tests env) g))"
    by simp
  from r(3) eq(1) show "length (failed_tests report) = RKTEST_MAX_NUM_TESTS cfg" by simp
  from r(4) eq(1)
  show "report_failed report = failing (env_tests env) (outcomes (env_tests env) g)" by simp
  from r(5) eq(1)
  show "num_failed_tests report = length (filter Not (outcomes (env_tests env) g))" by simp
qed

lemma built_run_exists:
  assumes "setup_test_env cfg sec = Inr env"
  shows "\<exists>report. run_all_tests cfg env g = Inr (report, state_after (env_tests env) g)"
  using run_all_tests_spec[OF setup_test_env_wf[OF assms], of g] by blast

lemma state_after_flag_nonempty:
  "ts \<noteq> [] \<Longrightarrow> \<not> g_current_test_failed (state_after ts g)"
proof (induction ts rule: rev_induct)
  case Nil
  then show ?case by simp
next
  case (snoc t ts)
  show ?case by (simp add: state_after_append run_test_flag)
qed

lemma state_after_flag_iff:
  "g_current_test_failed (state_after ts g) = (g_current_test_failed g \<and> ts = [])"
proof (cases "ts = []")
  case True
  then show ?thesis by simp
next
  case False
  with state_after_flag_nonempty[OF False, of g] show ?thesis by simp
qed

lemma no_failures_iff: "(length (filter Not oks) = 0) = list_all (\<lambda>ok. ok) oks"
  by (induction oks) auto

text \<open>
  C8: \<open>run_test\<close> leaves the signal false whatever it found, so every test after the first
  of a run starts with the signal false and no test's failure reaches the next one. The
  signal is not cleared before the first test: a run (and \<open>rktest_main\<close>) ends with the
  signal set exactly when it started with it set and ran no test. The signal is false
  in the state a program starts in; a run started with it false runs every test with
  it false, so that each outcome is decided by the test's own calls, and ends with it
  false, which is where the next run starts.
\<close>

theorem failure_signal_is_reset:
  assumes "\<not> g_current_test_failed g"
  shows "\<not> g_current_test_failed (initial_globals w) \<and>
         \<not> g_current_test_failed (snd (run_test test g0)) \<and>
         \<not> g_current_test_failed (state_after (take k ts) g) \<and>
         (0 < k \<and> k \<le> length ts \<longrightarrow> \<not> g_current_test_failed (state_after (take k ts) g0)) \<and>
         (k < length ts \<longrightarrow>
            outcomes ts g ! k = (fail_calls (ts ! k) (state_after (take k ts) g) = 0)) \<and>
         (setup_test_env cfg sec = Inr env \<and> run_all_tests cfg env g = Inr (report, g') \<longrightarrow>
            g' = state_after (env_tests env) g \<and>
            report_failed report = failing (env_tests env) (outcomes (env_tests env) g) \<and>
            \<not> g_current_test_failed g') \<and>
         (rktest_main cfg win32 sec g = Inr (ret, g'') \<longrightarrow> \<not> g_current_test_failed g'') \<and>
         (setup_test_env cfg sec = Inr env \<and> run_all_tests cfg env g0 = Inr (report0, g1) \<longrightarrow>
            g_current_test_failed g1 = (g_current_test_failed g0 \<and> total_num_tests env = 0)) \<and>
         (setup_test_env cfg sec = Inr env \<and> rktest_main cfg win32 sec g0 = Inr (ret0, g2) \<longrightarrow>
            g_current_test_failed g2 = (g_current_test_failed g0 \<and> total_num_tests env = 0))"
proof (intro conjI impI)
  show "\<not> g_current_test_failed (initial_globals w)"
    by (simp add: initial_globals_def)
  show "\<not> g_current_test_failed (snd (run_test test g0))"
    by (rule run_test_flag)
  show pre: "\<not> g_current_test_failed (state_after (take k ts) g)"
    using assms by (rule state_after_flag)
  {
    assume "0 < k \<and> k \<le> length ts"
    then have "take k ts \<noteq> []" by auto
    then show "\<not> g_current_test_failed (state_after (take k ts) g0)"
      by (rule state_after_flag_nonempty)
  }
  {
    assume "k < length ts"
    from outcomes_nth[OF this, of g] pre
    show "outcomes ts g ! k = (fail_calls (ts ! k) (state_after (take k ts) g) = 0)"
      by (simp add: run_test_passed)
  }
  {
    assume a: "setup_test_env cfg sec = Inr env \<and> run_all_tests cfg env g = Inr (report, g')"
    then have s: "setup_test_env cfg sec = Inr env" and r: "run_all_tests cfg env g = Inr (report, g')"
      by simp_all
    from built_run(1)[OF s r] show g': "g' = state_after (env_tests env) g" .
    from built_run(4)[OF s r]
    show "report_failed report = failing (env_tests env) (outcomes (env_tests env) g)" .
    from g' state_after_flag[OF assms] show "\<not> g_current_test_failed g'" by simp
  }
  {
    assume "rktest_main cfg win32 sec g = Inr (ret, g'')"
    from rktest_main_Inr[OF this] obtain env rep where
      s: "setup_test_env cfg sec = Inr env" and
      r: "run_all_tests cfg env (initialize win32 g) = Inr (rep, g'')"
      by blast
    have "\<not> g_current_test_failed (initialize win32 g)" using assms by simp
    from state_after_flag[OF this] built_run(1)[OF s r]
    show "\<not> g_current_test_failed g''" by simp
  }
  {
    assume a: "setup_test_env cfg sec = Inr env \<and> run_all_tests cfg env g0 = Inr (report0, g1)"
    then have s: "setup_test_env cfg sec = Inr env"
      and r: "run_all_tests cfg env g0 = Inr (report0, g1)"
      by simp_all
    have t: "(total_num_tests env = 0) = (env_tests env = [])"
      using setup_test_env_wf[OF s] by (simp add: wf_env_def)
    from built_run(1)[OF s r] t
    show "g_current_test_failed g1 = (g_current_test_failed g0 \<and> total_num_tests env = 0)"
      by (simp add: state_after_flag_iff)
  }
  {
    assume a: "setup_test_env cfg sec = Inr env \<and> rktest_main cfg win32 sec g0 = Inr (ret0, g2)"
    then have s: "setup_test_env cfg sec = Inr env"
      and m: "rktest_main cfg win32 sec g0 = Inr (ret0, g2)"
      by simp_all
    from rktest_main_Inr[OF m] s obtain rep where
      r: "run_all_tests cfg env (initialize win32 g0) = Inr (rep, g2)"
      by auto
    have t: "(total_num_tests env = 0) = (env_tests env = [])"
      using setup_test_env_wf[OF s] by (simp add: wf_env_def)
    from built_run(1)[OF s r] t
    show "g_current_test_failed g2 = (g_current_test_failed g0 \<and> total_num_tests env = 0)"
      by (simp add: state_after_flag_iff)
  }
qed

theorem failure_signal_is_reset_witness:
  "\<not> g_current_test_failed (initial_globals (0::nat)) \<and>
   \<not> g_current_test_failed
       (snd (run_test (example_test ''A'' ''t2'' 2) (rktest_fail_current_test (initial_globals 0)))) \<and>
   \<not> g_current_test_failed
       (state_after (take 1 [example_test ''A'' ''t2'' 2, example_test ''B'' ''t1'' 0])
          (initial_globals 0)) \<and>
   \<not> g_current_test_failed
       (state_after (take 1 [example_test ''A'' ''t2'' 2, example_test ''B'' ''t1'' 0])
          (rktest_fail_current_test (initial_globals 0))) \<and>
   1 < length [example_test ''A'' ''t2'' 2, example_test ''B'' ''t1'' 0] \<and>
   outcomes [example_test ''A'' ''t2'' 2, example_test ''B'' ''t1'' 0] (initial_globals 0) ! 1
     = (fail_calls ([example_test ''A'' ''t2'' 2, example_test ''B'' ''t1'' 0] ! 1)
          (state_after (take 1 [example_test ''A'' ''t2'' 2, example_test ''B'' ''t1'' 0])
             (initial_globals 0)) = 0) \<and>
   outcomes [example_test ''A'' ''t2'' 2, example_test ''B'' ''t1'' 0] (initial_globals 0)
     = [False, True] \<and>
   (\<exists>env report g'.
      setup_test_env example_config example_section = Inr env \<and>
      run_all_tests example_config env (initial_globals 0) = Inr (report, g') \<and>
      \<not> g_current_test_failed g') \<and>
   (\<exists>ret g''.
      rktest_main example_config None example_section (initial_globals 0) = Inr (ret, g'') \<and>
      \<not> g_current_test_failed g'') \<and>
   (\<exists>env report0 g1.
      setup_test_env example_config example_section = Inr env \<and>
      run_all_tests example_config env (rktest_fail_current_test (initial_globals 0))
        = Inr (report0, g1) \<and>
      total_num_tests env = 3 \<and> \<not> g_current_test_failed g1) \<and>
   (\<exists>env ret0 g2.
      setup_test_env example_config example_section = Inr env \<and>
      rktest_main example_config None example_section (rktest_fail_current_test (initial_globals 0))
        = Inr (ret0, g2) \<and>
      total_num_tests env = 3 \<and> \<not> g_current_test_failed g2)"
proof -
  let ?g = "initial_globals (0::nat)"
  let ?f = "rktest_fail_current_test (initial_globals (0::nat))"
  let ?ts = "[example_test ''A'' ''t2'' 2, example_test ''B'' ''t1'' 0]"
  have h: "\<not> g_current_test_failed ?g" by (simp add: initial_globals_def)
  have len: "1 < length ?ts" by simp
  have out: "outcomes ?ts ?g = [False, True]" by code_simp
  have "built_listing example_config example_section
          = Inr ([(''A'', [''t1'', ''t2'']), (''B'', [''t1''])], 3)"
    by code_simp
  then obtain env where env: "setup_test_env example_config example_section = Inr env"
    and tot: "total_num_tests env = 3"
    by (cases "setup_test_env example_config example_section")
       (auto simp: built_listing_def)
  from built_run_exists[OF env, of ?g] obtain report where
    rep: "run_all_tests example_config env ?g = Inr (report, state_after (env_tests env) ?g)"
    by blast
  from built_run_exists[OF env, of ?f] obtain report0 where
    rep0: "run_all_tests example_config env ?f = Inr (report0, state_after (env_tests env) ?f)"
    by blast
  have "case rktest_main example_config None example_section ?g of
          Inl e \<Rightarrow> False | Inr r \<Rightarrow> True"
    by code_simp
  then obtain ret g'' where
    main: "rktest_main example_config None example_section ?g = Inr (ret, g'')"
    by (cases "rktest_main example_config None example_section ?g") auto
  have "case rktest_main example_config None example_section ?f of
          Inl e \<Rightarrow> False | Inr r \<Rightarrow> True"
    by code_simp
  then obtain ret0 g2 where
    main0: "rktest_main example_config None example_section ?f = Inr (ret0, g2)"
    by (cases "rktest_main example_config None example_section ?f") auto
  note t = failure_signal_is_reset[OF h, of 0 "example_test ''A'' ''t2'' 2" ?f 1 ?ts
      example_config example_section env report "state_after (env_tests env) ?g" None ret g''
      report0 "state_after (env_tests env) ?f" ret0 g2]
  from t env rep have a: "\<not> g_current_test_failed (state_after (env_tests env) ?g)" by blast
  from t main have b: "\<not> g_current_test_failed g''" by blast
  from t len have c: "outcomes ?ts ?g ! 1
     = (fail_calls (?ts ! 1) (state_after (take 1 ?ts) ?g) = 0)" by blast
  have kk: "0 < (1::nat) \<and> 1 \<le> length ?ts" by simp
  from t kk have d: "\<not> g_current_test_failed (state_after (take 1 ?ts) ?f)" by blast
  from t env rep0 have "g_current_test_failed (state_after (env_tests env) ?f)
      = (g_current_test_failed ?f \<and> total_num_tests env = 0)" by blast
  with tot have e: "\<not> g_current_test_failed (state_after (env_tests env) ?f)" by simp
  from t env main0 have "g_current_test_failed g2
      = (g_current_test_failed ?f \<and> total_num_tests env = 0)" by blast
  with tot have f: "\<not> g_current_test_failed g2" by simp
  have p1: "\<exists>env report g'.
      setup_test_env example_config example_section = Inr env \<and>
      run_all_tests example_config env ?g = Inr (report, g') \<and> \<not> g_current_test_failed g'"
    by (intro exI[of _ env] exI[of _ report] exI[of _ "state_after (env_tests env) ?g"]
          conjI env rep a)
  have p2: "\<exists>ret g''.
      rktest_main example_config None example_section ?g = Inr (ret, g'') \<and>
      \<not> g_current_test_failed g''"
    by (intro exI[of _ ret] exI[of _ g''] conjI main b)
  have p3: "\<exists>env report0 g1.
      setup_test_env example_config example_section = Inr env \<and>
      run_all_tests example_config env ?f = Inr (report0, g1) \<and>
      total_num_tests env = 3 \<and> \<not> g_current_test_failed g1"
    by (intro exI[of _ env] exI[of _ report0] exI[of _ "state_after (env_tests env) ?f"]
          conjI env rep0 tot e)
  have p4: "\<exists>env ret0 g2.
      setup_test_env example_config example_section = Inr env \<and>
      rktest_main example_config None example_section ?f = Inr (ret0, g2) \<and>
      total_num_tests env = 3 \<and> \<not> g_current_test_failed g2"
    by (intro exI[of _ env] exI[of _ ret0] exI[of _ g2] conjI env main0 tot f)
  from t have t1: "\<not> g_current_test_failed
       (snd (run_test (example_test ''A'' ''t2'' 2) ?f))"
    by blast
  from t have t2: "\<not> g_current_test_failed (state_after (take 1 ?ts) ?g)" by blast
  show ?thesis
    by (intro conjI h t1 t2 d len c out p1 p2 p3 p4)
qed

text \<open>
  After a call of \<open>rktest_fail_current_test\<close> outside any test the signal is set; the
  first test of the next run starts with it set and is reported failed though its body
  makes no call, and a run that executes no test returns with the signal still set.
\<close>

theorem failure_signal_is_reset_counterexample:
  "g_current_test_failed (rktest_fail_current_test (initial_globals (0::nat))) \<and>
   fail_calls (example_test ''A'' ''t1'' 0) (rktest_fail_current_test (initial_globals 0)) = 0 \<and>
   outcomes [example_test ''A'' ''t1'' 0] (rktest_fail_current_test (initial_globals 0))
     = [False] \<and>
   main_summary example_config None [None] (rktest_fail_current_test (initial_globals (0::nat)))
     = Inr (1, True)"
proof (intro conjI)
  show "g_current_test_failed (rktest_fail_current_test (initial_globals (0::nat)))"
    by (simp add: rktest_fail_current_test_def)
  show "fail_calls (example_test ''A'' ''t1'' 0) (rktest_fail_current_test (initial_globals 0)) = 0"
    by (simp add: fail_calls_def example_test_def)
  show "outcomes [example_test ''A'' ''t1'' 0] (rktest_fail_current_test (initial_globals 0))
     = [False]"
    by code_simp
  show "main_summary example_config None [None]
      (rktest_fail_current_test (initial_globals (0::nat))) = Inr (1, True)"
    by code_simp
qed

text \<open>
  C4: a run over a built environment returns, and its report counts every test once:
  the passed count is the number of tests whose \<open>run_test\<close> returned true, the failed
  tests are the descriptors whose \<open>run_test\<close> returned false, in the order they were
  run, and the two counts add up to \<open>total_num_tests\<close>.
\<close>

theorem report_accounts_for_every_test:
  assumes "setup_test_env cfg sec = Inr env"
  shows "\<exists>report.
           run_all_tests cfg env g = Inr (report, state_after (env_tests env) g) \<and>
           num_passed_tests report = length (filter (\<lambda>ok. ok) (outcomes (env_tests env) g)) \<and>
           report_failed report = failing (env_tests env) (outcomes (env_tests env) g) \<and>
           num_failed_tests report = length (report_failed report) \<and>
           num_passed_tests report + num_failed_tests report = total_num_tests env"
proof -
  from built_run_exists[OF assms, of g] obtain report where
    r: "run_all_tests cfg env g = Inr (report, state_after (env_tests env) g)"
    by blast
  note b = built_run[OF assms r]
  have t: "total_num_tests env = length (env_tests env)"
    using setup_test_env_wf[OF assms] by (simp add: wf_env_def)
  have f: "num_failed_tests report = length (report_failed report)"
    using b(4,5) by (simp add: length_failing)
  have "num_passed_tests report + num_failed_tests report = total_num_tests env"
    using b(2,5) t filter_id_Not_length[of "outcomes (env_tests env) g"] by simp
  with r b f show ?thesis by blast
qed

theorem report_accounts_for_every_test_witness:
  "run_summary example_config example_section (initial_globals 0)
      = Inr (3, 2, [(''A'', ''t2'')], 1) \<and>
   (\<exists>env report.
      setup_test_env example_config example_section = Inr env \<and>
      run_all_tests example_config env (initial_globals 0)
        = Inr (report, state_after (env_tests env) (initial_globals 0)) \<and>
      num_failed_tests report = length (report_failed report) \<and>
      num_passed_tests report + num_failed_tests report = total_num_tests env)"
proof -
  have s: "run_summary example_config example_section (initial_globals 0)
      = Inr (3, 2, [(''A'', ''t2'')], 1)"
    by code_simp
  have "case setup_test_env example_config example_section of Inl e \<Rightarrow> False | Inr env \<Rightarrow> True"
    by code_simp
  then obtain env where env: "setup_test_env example_config example_section = Inr env"
    by (cases "setup_test_env example_config example_section") auto
  from report_accounts_for_every_test[OF env, of "initial_globals 0"] env s
  show ?thesis by blast
qed

lemma built_listing_Inl:
  "(built_listing cfg sec = Inl e) = (setup_test_env cfg sec = Inl e)"
  by (simp add: built_listing_def split: sum.splits)

text \<open>
  C5: when \<open>rktest_main\<close> returns, its value is 1 if \<open>num_failed_tests\<close> of the run's report
  is 0 and 0 otherwise, so it is nonzero exactly when every test that was run passed;
  and \<open>rktest_main\<close> fails to return only when the builder has ended the program.
\<close>

theorem rktest_main_status:
  "(rktest_main cfg win32 sec g = Inr (ret, g') \<longrightarrow>
      (\<exists>env report.
          setup_test_env cfg sec = Inr env \<and>
          run_all_tests cfg env (initialize win32 g) = Inr (report, g') \<and>
          ret = (if num_failed_tests report = 0 then 1 else 0) \<and>
          (ret \<noteq> 0) = (num_failed_tests report = 0) \<and>
          (ret \<noteq> 0) = list_all (\<lambda>ok. ok) (outcomes (env_tests env) (initialize win32 g)))) \<and>
   (rktest_main cfg win32 sec g = Inl e) = (setup_test_env cfg sec = Inl e)"
proof (intro conjI impI)
  assume "rktest_main cfg win32 sec g = Inr (ret, g')"
  from rktest_main_Inr[OF this] obtain env report where
    s: "setup_test_env cfg sec = Inr env" and
    r: "run_all_tests cfg env (initialize win32 g) = Inr (report, g')" and
    v: "ret = (if num_failed_tests report = 0 then 1 else 0)"
    by blast
  from v have z: "(ret \<noteq> 0) = (num_failed_tests report = 0)" by simp
  from built_run(5)[OF s r] no_failures_iff[of "outcomes (env_tests env) (initialize win32 g)"]
  have "(num_failed_tests report = 0)
          = list_all (\<lambda>ok. ok) (outcomes (env_tests env) (initialize win32 g))"
    by simp
  with z have "(ret \<noteq> 0) = list_all (\<lambda>ok. ok) (outcomes (env_tests env) (initialize win32 g))"
    by simp
  with s r v z show "\<exists>env report.
          setup_test_env cfg sec = Inr env \<and>
          run_all_tests cfg env (initialize win32 g) = Inr (report, g') \<and>
          ret = (if num_failed_tests report = 0 then 1 else 0) \<and>
          (ret \<noteq> 0) = (num_failed_tests report = 0) \<and>
          (ret \<noteq> 0) = list_all (\<lambda>ok. ok) (outcomes (env_tests env) (initialize win32 g))"
    by (intro exI[of _ env] exI[of _ report] conjI)
next
  show "(rktest_main cfg win32 sec g = Inl e) = (setup_test_env cfg sec = Inl e)"
    by (rule rktest_main_Inl)
qed

theorem rktest_main_status_witness:
  "(\<exists>g' env report.
      rktest_main example_config None example_section (initial_globals 0) = Inr (0, g') \<and>
      setup_test_env example_config example_section = Inr env \<and>
      run_all_tests example_config env (initialize None (initial_globals 0)) = Inr (report, g') \<and>
      num_failed_tests report \<noteq> 0 \<and>
      \<not> list_all (\<lambda>ok. ok) (outcomes (env_tests env) (initialize None (initial_globals 0)))) \<and>
   (\<exists>g' env report.
      rktest_main example_config None [None, Some (example_test ''A'' ''t1'' 0)] (initial_globals 0)
        = Inr (1, g') \<and>
      setup_test_env example_config [None, Some (example_test ''A'' ''t1'' 0)] = Inr env \<and>
      run_all_tests example_config env (initialize None (initial_globals 0)) = Inr (report, g') \<and>
      num_failed_tests report = 0 \<and>
      list_all (\<lambda>ok. ok) (outcomes (env_tests env) (initialize None (initial_globals 0))))"
proof -
  let ?g = "initial_globals (0::nat)"
  let ?sec = "[None, Some (example_test ''A'' ''t1'' 0)]"
  have "map_sum id fst (rktest_main example_config None example_section ?g) = Inr 0"
    by code_simp
  then obtain g0 where m0: "rktest_main example_config None example_section ?g = Inr (0, g0)"
    by (cases "rktest_main example_config None example_section ?g") auto
  have "map_sum id fst (rktest_main example_config None ?sec ?g) = Inr 1"
    by code_simp
  then obtain g1 where m1: "rktest_main example_config None ?sec ?g = Inr (1, g1)"
    by (cases "rktest_main example_config None ?sec ?g") auto
  from rktest_main_status[of example_config None example_section ?g 0 g0,
      THEN conjunct1, THEN mp, OF m0]
  obtain env0 r0 where a:
    "setup_test_env example_config example_section = Inr env0"
    "run_all_tests example_config env0 (initialize None ?g) = Inr (r0, g0)"
    "((0::int) \<noteq> 0) = (num_failed_tests r0 = 0)"
    "((0::int) \<noteq> 0) = list_all (\<lambda>ok. ok) (outcomes (env_tests env0) (initialize None ?g))"
    by (elim exE conjE)
  from rktest_main_status[of example_config None ?sec ?g 1 g1,
      THEN conjunct1, THEN mp, OF m1]
  obtain env1 r1 where b:
    "setup_test_env example_config ?sec = Inr env1"
    "run_all_tests example_config env1 (initialize None ?g) = Inr (r1, g1)"
    "((1::int) \<noteq> 0) = (num_failed_tests r1 = 0)"
    "((1::int) \<noteq> 0) = list_all (\<lambda>ok. ok) (outcomes (env_tests env1) (initialize None ?g))"
    by (elim exE conjE)
  from a(3,4) have a': "num_failed_tests r0 \<noteq> 0"
    "\<not> list_all (\<lambda>ok. ok) (outcomes (env_tests env0) (initialize None ?g))"
    by simp_all
  from b(3,4) have b': "num_failed_tests r1 = 0"
    "list_all (\<lambda>ok. ok) (outcomes (env_tests env1) (initialize None ?g))"
    by simp_all
  from m0 a(1,2) a' m1 b(1,2) b' show ?thesis by blast
qed

text \<open>
  C9: no access to a fixed-capacity array leaves it. \<open>setup_test_env\<close> never ends in an
  access out of bounds, on any section and for any two limits; the environment it
  returns holds at most \<open>RKTEST_MAX_NUM_TEST_SUITES\<close> suites of at most
  \<open>RKTEST_MAX_NUM_TESTS_PER_SUITE\<close> tests each, so at most \<open>RKTEST_MAX_NUM_TESTS\<close> tests; and
  \<open>run_all_tests\<close> on it never ends in an access out of bounds: \<open>failed_tests\<close> keeps its
  \<open>RKTEST_MAX_NUM_TESTS\<close> cells and \<open>num_failed_tests\<close> stays within them.
\<close>

theorem array_accesses_in_bounds:
  "setup_test_env cfg sec \<noteq> Inl Out_Of_Bounds \<and>
   (setup_test_env cfg sec = Inr env \<longrightarrow>
      length (test_suites env) = RKTEST_MAX_NUM_TEST_SUITES cfg \<and>
      num_test_suites env \<le> RKTEST_MAX_NUM_TEST_SUITES cfg \<and>
      (\<forall>s \<in> set (env_suites env).
         length (tests s) = RKTEST_MAX_NUM_TESTS_PER_SUITE cfg \<and>
         num_tests s \<le> RKTEST_MAX_NUM_TESTS_PER_SUITE cfg) \<and>
      total_num_tests env \<le> RKTEST_MAX_NUM_TESTS cfg \<and>
      run_all_tests cfg env g \<noteq> Inl Out_Of_Bounds \<and>
      (run_all_tests cfg env g = Inr (report, g') \<longrightarrow>
         length (failed_tests report) = RKTEST_MAX_NUM_TESTS cfg \<and>
         num_failed_tests report \<le> RKTEST_MAX_NUM_TESTS cfg))"
proof (intro conjI impI)
  show "setup_test_env cfg sec \<noteq> Inl Out_Of_Bounds"
  proof (cases sec)
    case Nil
    then show ?thesis by (simp add: setup_test_env_Nil)
  next
    case (Cons c cells)
    show ?thesis
    proof
      assume "setup_test_env cfg sec = Inl Out_Of_Bounds"
      with Cons have "build cfg (descriptors cells) (empty_env cfg) = Inl Out_Of_Bounds"
        by (simp add: setup_test_env_Cons)
      from build_error[OF wf_env_empty this] show False by auto
    qed
  qed
next
  assume s: "setup_test_env cfg sec = Inr env"
  note wf = setup_test_env_wf[OF s]
  from wf show "length (test_suites env) = RKTEST_MAX_NUM_TEST_SUITES cfg"
    by (simp add: wf_env_def)
  from wf show "num_test_suites env \<le> RKTEST_MAX_NUM_TEST_SUITES cfg"
    by (simp add: wf_env_def)
  from wf show "\<forall>s \<in> set (env_suites env).
         length (tests s) = RKTEST_MAX_NUM_TESTS_PER_SUITE cfg \<and>
         num_tests s \<le> RKTEST_MAX_NUM_TESTS_PER_SUITE cfg"
    by (simp add: wf_env_def)
  from wf wf_env_total_bound[OF wf] show "total_num_tests env \<le> RKTEST_MAX_NUM_TESTS cfg"
    by (simp add: wf_env_def)
  from built_run_exists[OF s, of g] show "run_all_tests cfg env g \<noteq> Inl Out_Of_Bounds"
    by auto
  {
    assume r: "run_all_tests cfg env g = Inr (report, g')"
    from built_run(3)[OF s r] show "length (failed_tests report) = RKTEST_MAX_NUM_TESTS cfg" .
    have "length (filter Not (outcomes (env_tests env) g)) \<le> length (env_tests env)"
      using length_filter_le[of Not "outcomes (env_tests env) g"] by simp
    with built_run(5)[OF s r] wf_env_total_bound[OF wf]
    show "num_failed_tests report \<le> RKTEST_MAX_NUM_TESTS cfg" by simp
  }
qed

theorem array_accesses_in_bounds_witness:
  "setup_test_env example_config example_section \<noteq> Inl Out_Of_Bounds \<and>
   setup_test_env example_config
       [None, Some (example_test ''A'' ''t1'' 0), Some (example_test ''A'' ''t2'' 0),
        Some (example_test ''A'' ''t3'' 0)]
     = Inl (Too_Many_Tests_In_Suite ''A'' 2) \<and>
   (\<exists>env report g'.
      setup_test_env example_config example_section = Inr env \<and>
      num_test_suites env \<le> RKTEST_MAX_NUM_TEST_SUITES example_config \<and>
      total_num_tests env \<le> RKTEST_MAX_NUM_TESTS example_config \<and>
      run_all_tests example_config env (initial_globals 0) = Inr (report, g') \<and>
      length (failed_tests report) = RKTEST_MAX_NUM_TESTS example_config \<and>
      num_failed_tests report \<le> RKTEST_MAX_NUM_TESTS example_config)"
proof -
  let ?g = "initial_globals (0::nat)"
  have "built_listing example_config
       [None, Some (example_test ''A'' ''t1'' 0), Some (example_test ''A'' ''t2'' 0),
        Some (example_test ''A'' ''t3'' 0)]
     = Inl (Too_Many_Tests_In_Suite ''A'' 2)"
    by code_simp
  then have full: "setup_test_env example_config
       [None, Some (example_test ''A'' ''t1'' 0), Some (example_test ''A'' ''t2'' 0),
        Some (example_test ''A'' ''t3'' 0)]
     = Inl (Too_Many_Tests_In_Suite ''A'' 2)"
    by (simp only: built_listing_Inl)
  have "case setup_test_env example_config example_section of Inl e \<Rightarrow> False | Inr env \<Rightarrow> True"
    by code_simp
  then obtain env where env: "setup_test_env example_config example_section = Inr env"
    by (cases "setup_test_env example_config example_section") auto
  from built_run_exists[OF env, of ?g] obtain report where
    rep: "run_all_tests example_config env ?g = Inr (report, state_after (env_tests env) ?g)"
    by blast
  note t = array_accesses_in_bounds[of example_config example_section env ?g report
      "state_after (env_tests env) ?g"]
  from t have a: "setup_test_env example_config example_section \<noteq> Inl Out_Of_Bounds"
    by (rule conjunct1)
  from t env have b: "num_test_suites env \<le> RKTEST_MAX_NUM_TEST_SUITES example_config"
    "total_num_tests env \<le> RKTEST_MAX_NUM_TESTS example_config"
    by simp_all
  from t env rep have c: "length (failed_tests report) = RKTEST_MAX_NUM_TESTS example_config"
    "num_failed_tests report \<le> RKTEST_MAX_NUM_TESTS example_config"
    by simp_all
  from a full env rep b c show ?thesis by blast
qed

section \<open>What the builder does with the cells it reads\<close>

lemma first_seen_Nil [simp]: "first_seen [] = []"
  by (simp add: first_seen_def)

lemma first_seen_snoc:
  "first_seen (xs @ [x]) = (if x \<in> set xs then first_seen xs else first_seen xs @ [x])"
  by (simp add: first_seen_def)

lemma set_first_seen [simp]: "set (first_seen xs) = set xs"
  by (simp add: first_seen_def)

lemma distinct_first_seen [simp]: "distinct (first_seen xs)"
  by (simp add: first_seen_def)

lemma remdups_snoc:
  "remdups (ys @ [x]) = filter (\<lambda>y. y \<noteq> x) (remdups ys) @ [x]"
  by (induction ys) auto

lemma first_seen_Cons:
  "first_seen (x # xs) = x # filter (\<lambda>y. y \<noteq> x) (first_seen xs)"
  by (simp add: first_seen_def remdups_snoc rev_filter)

lemma group_insert_present:
  "distinct (map fst gs) \<Longrightarrow> suite_name t \<in> fst ` set gs \<Longrightarrow>
   group_insert t gs = map (\<lambda>(n, us). if n = suite_name t then (n, us @ [t]) else (n, us)) gs"
proof (induction gs)
  case Nil
  then show ?case by simp
next
  case (Cons g gs)
  obtain n us where g: "g = (n, us)" by (cases g)
  show ?case
  proof (cases "n = suite_name t")
    case True
    with Cons.prems g have "suite_name t \<notin> fst ` set gs" by auto
    then have "map (\<lambda>(n, us). if n = suite_name t then (n, us @ [t]) else (n, us)) gs = gs"
      by (intro map_idI) (force split: prod.splits)
    with True g show ?thesis by simp
  next
    case False
    with Cons.prems g have "suite_name t \<in> fst ` set gs" "distinct (map fst gs)" by auto
    with Cons.IH False g show ?thesis by simp
  qed
qed

lemma group_all_Nil [simp]: "group_all [] = []"
  by (simp add: group_all_def)

lemma group_all_snoc: "group_all (ts @ [t]) = group_insert t (group_all ts)"
proof (cases "suite_name t \<in> suite_name ` set ts")
  case True
  have d: "distinct (map fst (group_all ts))"
    by (simp add: group_all_def comp_def)
  have m: "suite_name t \<in> fst ` set (group_all ts)"
    using True by (force simp: group_all_def)
  have "group_all (ts @ [t])
      = map (\<lambda>n. (n, filter (\<lambda>u. suite_name u = n) (ts @ [t]))) (first_seen (map suite_name ts))"
    using True by (simp add: group_all_def first_seen_snoc)
  also have "\<dots> = map (\<lambda>(n, us). if n = suite_name t then (n, us @ [t]) else (n, us))
                     (group_all ts)"
    by (simp add: group_all_def)
  also have "\<dots> = group_insert t (group_all ts)"
    using group_insert_present[OF d m] by simp
  finally show ?thesis .
next
  case False
  then have n: "suite_name t \<notin> fst ` set (group_all ts)"
    by (force simp: group_all_def)
  have e: "filter (\<lambda>u. suite_name u = suite_name t) ts = []"
  proof (rule filter_False, rule ballI, rule notI)
    fix u assume u: "u \<in> set ts" and eq: "suite_name u = suite_name t"
    from imageI[OF u, of suite_name] eq have "suite_name t \<in> suite_name ` set ts" by simp
    with False show False by simp
  qed
  have "group_all (ts @ [t])
      = map (\<lambda>n. (n, filter (\<lambda>u. suite_name u = n) (ts @ [t]))) (first_seen (map suite_name ts))
        @ [(suite_name t, [t])]"
    using False e by (simp add: group_all_def first_seen_snoc)
  also have "map (\<lambda>n. (n, filter (\<lambda>u. suite_name u = n) (ts @ [t]))) (first_seen (map suite_name ts))
      = group_all ts"
    unfolding group_all_def using False by (intro map_cong) auto
  finally show ?thesis
    using group_insert_new[OF n] by simp
qed

lemma foldl_group_insert:
  "foldl (\<lambda>gs t. group_insert t gs) [] ts = group_all ts"
  by (induction ts rule: rev_induct) (simp_all add: group_all_snoc)

lemma length_group_insert:
  "length (concat (map snd (group_insert t gs))) = Suc (length (concat (map snd gs)))"
  by (induction gs) (auto split: prod.splits)

lemma length_group_all: "length (concat (map snd (group_all ts))) = length ts"
  by (induction ts rule: rev_induct) (simp_all add: group_all_snoc length_group_insert)

lemma length_group_all_suites: "length (group_all ts) = card (suite_name ` set ts)"
  by (simp add: group_all_def) (metis distinct_card distinct_first_seen set_first_seen set_map)

lemma build_empty_env:
  assumes "build cfg ts (empty_env cfg) = Inr env"
  shows "wf_env cfg env" and "env_view env = group_all ts"
  using build_spec[OF wf_env_empty assms]
  by (simp_all add: env_view_empty foldl_group_insert)

text \<open>
  What the builder does with the cells after the first: null cells change nothing, the
  suites are the suite names of the descriptors in the order they are first seen, each
  holds its descriptors in their order, and the counts are those of the descriptors.
\<close>

theorem builder_reads_all_but_first_cell:
  assumes "setup_test_env cfg (c # cells) = Inr env"
  shows "env_view env = group_all (descriptors cells) \<and>
         map fst (env_view env) = first_seen (map suite_name (descriptors cells)) \<and>
         total_num_tests env = length (descriptors cells) \<and>
         num_test_suites env = card (suite_name ` set (descriptors cells)) \<and>
         total_num_tests env = sum_list (map num_tests (env_suites env))"
proof -
  from assms have b: "build cfg (descriptors cells) (empty_env cfg) = Inr env"
    by (simp add: setup_test_env_Cons)
  note wf = build_empty_env(1)[OF b] and view = build_empty_env(2)[OF b]
  have names: "map fst (env_view env) = first_seen (map suite_name (descriptors cells))"
    by (simp add: view group_all_def comp_def)
  have total: "total_num_tests env = length (descriptors cells)"
    using wf by (simp add: wf_env_def env_tests_view view length_group_all)
  have "num_test_suites env = length (env_view env)"
    using wf by (simp add: wf_env_def env_suites_def)
  then have suites: "num_test_suites env = card (suite_name ` set (descriptors cells))"
    by (simp add: view length_group_all_suites)
  have "\<And>s. s \<in> set (env_suites env) \<Longrightarrow> length (suite_tests s) = num_tests s"
    using wf by (simp add: wf_env_def suite_tests_def)
  then have meq: "map (length \<circ> suite_tests) (env_suites env) = map num_tests (env_suites env)"
    by (intro map_cong) auto
  have "length (env_tests env) = sum_list (map (length \<circ> suite_tests) (env_suites env))"
    by (simp add: env_tests_def length_concat)
  also have "\<dots> = sum_list (map num_tests (env_suites env))"
    by (simp only: meq)
  finally have "length (env_tests env) = sum_list (map num_tests (env_suites env))" .
  with wf have sum: "total_num_tests env = sum_list (map num_tests (env_suites env))"
    by (simp add: wf_env_def)
  from view names total suites sum show ?thesis by simp
qed

theorem builder_reads_all_but_first_cell_witness:
  "\<exists>env. setup_test_env three_suites
            [None, Some (example_test ''A'' ''t1'' 0), None, Some (example_test ''B'' ''t1'' 0),
             Some (example_test ''A'' ''t2'' 0)] = Inr env \<and>
         map fst (env_view env) = [''A'', ''B''] \<and> total_num_tests env = 3 \<and>
         num_test_suites env = 2"
proof -
  let ?cells = "[Some (example_test ''A'' ''t1'' 0), None, Some (example_test ''B'' ''t1'' 0),
             Some (example_test ''A'' ''t2'' 0)]"
  have "case setup_test_env three_suites (None # ?cells) of Inl e \<Rightarrow> False | Inr env \<Rightarrow> True"
    by code_simp
  then obtain env where env: "setup_test_env three_suites (None # ?cells) = Inr env"
    by (cases "setup_test_env three_suites (None # ?cells)") auto
  have n: "first_seen (map suite_name (descriptors ?cells)) = [''A'', ''B'']"
    by (simp add: first_seen_def example_test_def)
  have "suite_name ` set (descriptors ?cells) = {''A'', ''B''}"
    by (auto simp: example_test_def)
  then have k: "card (suite_name ` set (descriptors ?cells)) = 2"
    by simp
  note t = builder_reads_all_but_first_cell[OF env]
  from t[THEN conjunct2, THEN conjunct1] n
  have a: "map fst (env_view env) = [''A'', ''B'']" by simp
  from t[THEN conjunct2, THEN conjunct2, THEN conjunct1]
  have b: "total_num_tests env = 3" by simp
  from t[THEN conjunct2, THEN conjunct2, THEN conjunct2, THEN conjunct1] k
  have c: "num_test_suites env = 2" by simp
  show ?thesis
    by (intro exI[of _ env] conjI env a b c)
qed

text \<open>On a section of at least one cell the builder returns or ends the program at a limit.\<close>

lemma builder_stays_in_section:
  "setup_test_env cfg (c # cells) \<noteq> Inl Outside_Section \<and>
   setup_test_env cfg (c # cells) \<noteq> Inl Null_Descriptor \<and>
   setup_test_env cfg (c # cells) \<noteq> Inl Out_Of_Bounds"
  using build_error[OF wf_env_empty, of cfg "descriptors cells"]
  by (auto simp: setup_test_env_Cons)

lemma build_append:
  "build cfg (xs @ ys) env =
     (case build cfg xs env of Inl e \<Rightarrow> Inl e | Inr env' \<Rightarrow> build cfg ys env')"
  by (induction xs arbitrary: env) (auto split: sum.splits)

lemma suite_of_group_all:
  "suite_of (group_all ts) n = filter (\<lambda>t. suite_name t = n) ts"
proof (cases "n \<in> suite_name ` set ts")
  case True
  then have "map_of (group_all ts) n = Some (filter (\<lambda>t. suite_name t = n) ts)"
    by (simp add: group_all_def map_of_map_restrict)
  then show ?thesis by (simp add: suite_of_def)
next
  case False
  then have "map_of (group_all ts) n = None"
    by (simp add: group_all_def map_of_map_restrict)
  moreover have "filter (\<lambda>t. suite_name t = n) ts = []"
  proof (rule filter_False, rule ballI, rule notI)
    fix u assume u: "u \<in> set ts" and eq: "suite_name u = n"
    from imageI[OF u, of suite_name] eq have "n \<in> suite_name ` set ts" by simp
    with False show False by simp
  qed
  ultimately show ?thesis by (simp add: suite_of_def)
qed

lemma build_snoc_succeeds:
  assumes "build cfg ts (empty_env cfg) = Inr env1"
  shows "(\<exists>env. build cfg (ts @ [t]) (empty_env cfg) = Inr env) =
         (card (suite_name ` set ts) \<noteq> RKTEST_MAX_NUM_TEST_SUITES cfg \<and>
          length (filter (\<lambda>u. suite_name u = suite_name t) ts)
            \<noteq> RKTEST_MAX_NUM_TESTS_PER_SUITE cfg)"
proof -
  note wf = build_empty_env(1)[OF assms] and view = build_empty_env(2)[OF assms]
  have "num_test_suites env1 = length (env_view env1)"
    using wf by (simp add: wf_env_def env_suites_def)
  then have n: "num_test_suites env1 = card (suite_name ` set ts)"
    by (simp add: view length_group_all_suites)
  have b: "build cfg (ts @ [t]) (empty_env cfg) = setup_test_env_body cfg env1 t"
    using assms by (simp add: build_append split: sum.splits)
  show ?thesis
  proof (cases "num_test_suites env1 = RKTEST_MAX_NUM_TEST_SUITES cfg")
    case True
    with setup_test_env_body_full_env[OF True, of t] b n show ?thesis by simp
  next
    case False
    from setup_test_env_body_spec[OF wf False, of t] b n False
    show ?thesis
      by (auto simp: view suite_of_group_all)
  qed
qed

text \<open>
  When the builder returns: the descriptors before the last one name fewer suites than
  \<open>RKTEST_MAX_NUM_TEST_SUITES\<close>, and no suite has more than
  \<open>RKTEST_MAX_NUM_TESTS_PER_SUITE\<close> descriptors. A registry that fills the suite limit
  is built only if its last suite starts at the last descriptor.
\<close>

theorem build_returns_iff:
  "(\<exists>env. build cfg ts (empty_env cfg) = Inr env) =
     ((ts = [] \<or> card (suite_name ` set (butlast ts)) < RKTEST_MAX_NUM_TEST_SUITES cfg) \<and>
      (\<forall>n. length (filter (\<lambda>t. suite_name t = n) ts) \<le> RKTEST_MAX_NUM_TESTS_PER_SUITE cfg))"
proof (induction ts rule: rev_induct)
  case Nil
  then show ?case by simp
next
  case (snoc t ts)
  let ?S = "RKTEST_MAX_NUM_TEST_SUITES cfg"
  let ?P = "RKTEST_MAX_NUM_TESTS_PER_SUITE cfg"
  let ?count = "\<lambda>n xs. length (filter (\<lambda>u. suite_name u = n) xs)"
  show ?case
  proof
    assume "\<exists>env. build cfg (ts @ [t]) (empty_env cfg) = Inr env"
    then obtain env where env: "build cfg (ts @ [t]) (empty_env cfg) = Inr env" by blast
    then obtain env1 where env1: "build cfg ts (empty_env cfg) = Inr env1"
      by (auto simp: build_append split: sum.splits)
    from build_snoc_succeeds[OF env1, of t] env
    have ne: "card (suite_name ` set ts) \<noteq> ?S" "?count (suite_name t) ts \<noteq> ?P"
      by blast+
    note wf = build_empty_env(1)[OF env1] and view = build_empty_env(2)[OF env1]
    have "num_test_suites env1 = length (env_view env1)"
      using wf by (simp add: wf_env_def env_suites_def)
    then have "card (suite_name ` set ts) \<le> ?S"
      using wf by (simp add: view length_group_all_suites wf_env_def)
    with ne(1) have a: "card (suite_name ` set ts) < ?S" by simp
    from snoc.IH env1 have cnt: "\<forall>n. ?count n ts \<le> ?P" by blast
    have "\<forall>n. ?count n (ts @ [t]) \<le> ?P"
    proof
      fix n
      from cnt have "?count n ts \<le> ?P" by (rule spec)
      with ne(2) show "?count n (ts @ [t]) \<le> ?P"
        by (cases "suite_name t = n") auto
    qed
    with a show "(ts @ [t] = [] \<or> card (suite_name ` set (butlast (ts @ [t]))) < ?S) \<and>
      (\<forall>n. ?count n (ts @ [t]) \<le> ?P)"
      by simp
  next
    assume r: "(ts @ [t] = [] \<or> card (suite_name ` set (butlast (ts @ [t]))) < ?S) \<and>
      (\<forall>n. ?count n (ts @ [t]) \<le> ?P)"
    then have a: "card (suite_name ` set ts) < ?S" by simp
    from r have cnt': "\<And>n. ?count n (ts @ [t]) \<le> ?P" by blast
    have cnt: "\<forall>n. ?count n ts \<le> ?P"
    proof
      fix n
      from cnt'[of n] show "?count n ts \<le> ?P" by (simp split: if_splits)
    qed
    have "ts = [] \<or> card (suite_name ` set (butlast ts)) < ?S"
    proof (cases "ts = []")
      case True
      then show ?thesis by simp
    next
      case False
      have "set (butlast ts) \<subseteq> set ts" by (auto dest: in_set_butlastD)
      then have "card (suite_name ` set (butlast ts)) \<le> card (suite_name ` set ts)"
        by (intro card_mono image_mono) simp_all
      with a show ?thesis by simp
    qed
    with cnt snoc.IH obtain env1 where env1: "build cfg ts (empty_env cfg) = Inr env1"
      by blast
    from cnt'[of "suite_name t"] have "?count (suite_name t) ts \<noteq> ?P" by simp
    with a build_snoc_succeeds[OF env1, of t]
    show "\<exists>env. build cfg (ts @ [t]) (empty_env cfg) = Inr env" by simp
  qed
qed

theorem builder_returns_iff:
  "(\<exists>env. setup_test_env cfg (c # cells) = Inr env) =
     ((descriptors cells = [] \<or>
       card (suite_name ` set (butlast (descriptors cells))) < RKTEST_MAX_NUM_TEST_SUITES cfg) \<and>
      (\<forall>n. length (filter (\<lambda>t. suite_name t = n) (descriptors cells))
             \<le> RKTEST_MAX_NUM_TESTS_PER_SUITE cfg))"
  by (simp only: setup_test_env_Cons build_returns_iff)

section \<open>Descriptors without a function\<close>





section \<open>Where the builder leaves the registry's contract\<close>

text \<open>
  C1: with room for two suites, the section of a padding cell and the descriptors
  \<open>A.t1\<close>, \<open>B.t1\<close>, \<open>A.t2\<close> holds two suites of at most two tests, and the builder ends the
  program at \<open>A.t2\<close> with the diagnostic of the suite limit: the limit is tested before
  the suite is looked up, so a descriptor of a suite that exists is refused once the
  environment is full. With room for three suites the same section is built.
\<close>

theorem suite_limit_refuses_existing_suite:
  "setup_test_env example_config
      [None, Some (example_test ''A'' ''t1'' 0), Some (example_test ''B'' ''t1'' 0),
       Some (example_test ''A'' ''t2'' 0)]
     = Inl (Too_Many_Test_Suites 2) \<and>
   built_listing three_suites
      [None, Some (example_test ''A'' ''t1'' 0), Some (example_test ''B'' ''t1'' 0),
       Some (example_test ''A'' ''t2'' 0)]
     = Inr ([(''A'', [''t1'', ''t2'']), (''B'', [''t1''])], 3)"
proof
  have "built_listing example_config
      [None, Some (example_test ''A'' ''t1'' 0), Some (example_test ''B'' ''t1'' 0),
       Some (example_test ''A'' ''t2'' 0)]
     = Inl (Too_Many_Test_Suites 2)"
    by code_simp
  then show "setup_test_env example_config
      [None, Some (example_test ''A'' ''t1'' 0), Some (example_test ''B'' ''t1'' 0),
       Some (example_test ''A'' ''t2'' 0)]
     = Inl (Too_Many_Test_Suites 2)"
    by (simp only: built_listing_Inl)
  show "built_listing three_suites
      [None, Some (example_test ''A'' ''t1'' 0), Some (example_test ''B'' ''t1'' 0),
       Some (example_test ''A'' ''t2'' 0)]
     = Inr ([(''A'', [''t1'', ''t2'']), (''B'', [''t1''])], 3)"
    by code_simp
qed

text \<open>
  C2: the loop of \<open>setup_test_env\<close> starts at \<open>skip_until_next_test (&test_data_begin + 1)\<close>,
  which steps over the cell at \<open>&test_data_begin + 1\<close> before it reads any: what the first
  cell of the section holds makes no difference, and a section whose only cell is a
  descriptor gives an environment of no suite and no test.
\<close>

theorem first_cell_is_never_read:
  "setup_test_env cfg (Some t # cells) = setup_test_env cfg (None # cells) \<and>
   setup_test_env cfg [Some t] = Inr (empty_env cfg) \<and>
   total_num_tests (empty_env cfg) = 0 \<and> num_test_suites (empty_env cfg) = 0"
  by (simp add: setup_test_env_Cons empty_env_def)

text \<open>
  C3: the section \<open>A.t1\<close>, \<open>B.t1\<close>, \<open>A.t2\<close> with no padding before \<open>A.t1\<close> is built as the
  suites \<open>B{t1}\<close>, \<open>A{t2}\<close>: the first descriptor is stepped over, so \<open>B\<close> comes first. With
  a padding cell in front the suites are \<open>A{t1, t2}\<close>, \<open>B{t1}\<close>.
\<close>

theorem first_descriptor_is_lost:
  "built_listing three_suites
      [Some (example_test ''A'' ''t1'' 0), Some (example_test ''B'' ''t1'' 0),
       Some (example_test ''A'' ''t2'' 0)]
     = Inr ([(''B'', [''t1'']), (''A'', [''t2''])], 2) \<and>
   built_listing three_suites
      [None, Some (example_test ''A'' ''t1'' 0), Some (example_test ''B'' ''t1'' 0),
       Some (example_test ''A'' ''t2'' 0)]
     = Inr ([(''A'', [''t1'', ''t2'']), (''B'', [''t1''])], 3)"
  by (intro conjI; code_simp)

text \<open>
  C10: on the section of no cell, \<open>&test_data_begin + 1\<close> is \<open>&test_data_end\<close>; the first
  call of \<open>skip_until_next_test\<close> steps past it and reads outside the section, and the
  loop never reaches the end marker.
\<close>

theorem empty_section_is_overrun:
  "test_data_begin + 1 = test_data_end ([] :: 'w rktest_section) \<and>
   skip_until_next_test ([] :: 'w rktest_section) (test_data_begin + 1) = Inl Outside_Section \<and>
   setup_test_env cfg ([] :: 'w rktest_section) = Inl Outside_Section"
  by (simp add: setup_test_env_Nil skip_until_next_test.simps[of "[]" "Suc 0"]
        test_data_begin_def test_data_end_def read_cell_def)

end
